theory Spec2Isabelle
  imports Main
begin

section \<open>Python values used by the script\<close>

text \<open>
  The script \<^verbatim>\<open>visualizer_script.py\<close> has three functions: \<^verbatim>\<open>parse_input\<close>,
  \<^verbatim>\<open>find_articulation_points\<close> and \<^verbatim>\<open>build_html\<close>. Exceptions are values of
  the type \<open>error\<close>; a function that may raise returns \<open>error + 'a\<close>.
  \<^verbatim>\<open>RecursionError\<close> is what the interpreter raises when a call would put more frames
  on the call stack than its recursion limit allows.

  A Python \<^verbatim>\<open>dict\<close> keeps its keys in insertion order and is modelled by an association
  list. A Python \<^verbatim>\<open>set\<close> of integers is modelled by the list of its elements; the order
  of that list stands for the order in which Python iterates the set, which the
  language leaves open. The theorems about the traversal hold for every such order.
\<close>

datatype error = KeyError | ValueError | TypeError | RecursionError

text \<open>Sequencing: an exception of the first computation ends the second.\<close>

definition raising :: "'e + 'a \<Rightarrow> ('a \<Rightarrow> 'e + 'b) \<Rightarrow> 'e + 'b" where
  "raising m f = (case m of Inl e \<Rightarrow> Inl e | Inr x \<Rightarrow> f x)"

type_synonym adj = "(int \<times> int list) list"

text \<open>\<^verbatim>\<open>adj.get(u, [])\<close>\<close>

definition adj_get :: "adj \<Rightarrow> int \<Rightarrow> int list" where
  "adj_get adj u = (case map_of adj u of None \<Rightarrow> [] | Some ns \<Rightarrow> ns)"

text \<open>\<^verbatim>\<open>adj.setdefault(u, set())\<close>, as far as the dictionary is concerned.\<close>

definition setdefault :: "adj \<Rightarrow> int \<Rightarrow> adj" where
  "setdefault adj u = (if u \<in> fst ` set adj then adj else adj @ [(u, [])])"

text \<open>\<^verbatim>\<open>s.add(x)\<close> on a set.\<close>

definition set_add :: "int list \<Rightarrow> int \<Rightarrow> int list" where
  "set_add ns x = (if x \<in> set ns then ns else ns @ [x])"

text \<open>The set stored under key \<open>u\<close> receives \<open>x\<close>; the other entries are untouched.\<close>

definition add_to :: "adj \<Rightarrow> int \<Rightarrow> int \<Rightarrow> adj" where
  "add_to adj u x = map (\<lambda>(k, ns). if k = u then (k, set_add ns x) else (k, ns)) adj"

text \<open>\<^verbatim>\<open>adj[u].add(x)\<close>: the subscript raises \<^verbatim>\<open>KeyError\<close> on a missing key.\<close>

definition adj_add :: "adj \<Rightarrow> int \<Rightarrow> int \<Rightarrow> error + adj" where
  "adj_add adj u x = (case map_of adj u of None \<Rightarrow> Inl KeyError | Some ns \<Rightarrow> Inr (add_to adj u x))"

section \<open>Strings and \<^verbatim>\<open>int()\<close>\<close>

text \<open>
  Strings are lists of characters with the code points 0 to 255. \<^verbatim>\<open>str.strip\<close> removes
  the characters for which \<^verbatim>\<open>str.isspace\<close> holds: 9 to 13, 28 to 32, 133 and 160.
  \<^verbatim>\<open>int\<close> skips fewer: it keeps every character below 127 as it is and then skips the
  ASCII white space 9 to 13 and 32, and it takes 133 and 160 for a space. So
  \<^verbatim>\<open>int\<close> raises \<^verbatim>\<open>ValueError\<close> on a string that begins with the character 28, which
  \<^verbatim>\<open>strip\<close> removes. \<^verbatim>\<open>int\<close> accepts an optional sign and decimal digits, with single
  underscores between digits, and raises \<^verbatim>\<open>ValueError\<close> when there are more than 4300
  digits (\<^verbatim>\<open>sys.get_int_max_str_digits()\<close>). No character from 128 to 255 is a decimal
  digit. The theorems about \<^verbatim>\<open>parse_input\<close> hold for any function in the place of
  \<open>py_int\<close>: they use only whether a field parses and to which number.
\<close>

definition is_space :: "char \<Rightarrow> bool" where
  "is_space c = (let n = (of_char c :: nat) in
     (9 \<le> n \<and> n \<le> 13) \<or> (28 \<le> n \<and> n \<le> 32) \<or> n = 133 \<or> n = 160)"

text \<open>The characters that \<^verbatim>\<open>int\<close> skips at both ends of its argument.\<close>

definition is_int_space :: "char \<Rightarrow> bool" where
  "is_int_space c = (let n = (of_char c :: nat) in
     (9 \<le> n \<and> n \<le> 13) \<or> n = 32 \<or> n = 133 \<or> n = 160)"

definition max_str_digits :: nat where
  "max_str_digits = 4300"

definition is_digit :: "char \<Rightarrow> bool" where
  "is_digit c = (let n = (of_char c :: nat) in 48 \<le> n \<and> n \<le> 57)"

definition digit_val :: "char \<Rightarrow> nat" where
  "digit_val c = of_char c - 48"

definition strip :: "string \<Rightarrow> string" where
  "strip s = rev (dropWhile is_space (rev (dropWhile is_space s)))"

fun parse_digits :: "string \<Rightarrow> nat \<Rightarrow> nat option" where
  "parse_digits [] acc = Some acc"
| "parse_digits (c # cs) acc =
     (if is_digit c then parse_digits cs (10 * acc + digit_val c)
      else if c = CHR ''_'' then
        (case cs of [] \<Rightarrow> None
         | d # ds \<Rightarrow> if is_digit d then parse_digits cs acc else None)
      else None)"

definition unsigned_int :: "string \<Rightarrow> nat option" where
  "unsigned_int s = (case s of [] \<Rightarrow> None
     | d # ds \<Rightarrow>
         if is_digit d \<and> length (filter is_digit s) \<le> max_str_digits
         then parse_digits s 0 else None)"

text \<open>\<^verbatim>\<open>int(s)\<close> for a string \<open>s\<close>; \<open>None\<close> stands for \<^verbatim>\<open>ValueError\<close>.\<close>

definition py_int :: "string \<Rightarrow> int option" where
  "py_int s = (case rev (dropWhile is_int_space (rev (dropWhile is_int_space s))) of [] \<Rightarrow> None
     | c # cs \<Rightarrow>
         if c = CHR ''-'' then map_option (\<lambda>n. - int n) (unsigned_int cs)
         else if c = CHR ''+'' then map_option int (unsigned_int cs)
         else map_option int (unsigned_int (c # cs)))"

section \<open>\<^verbatim>\<open>parse_input\<close>\<close>

text \<open>
  \<^verbatim>\<open>csv.DictReader\<close> yields one dictionary per line of the file, from the column names of
  the header to the fields of the line. A field of a short line is \<^verbatim>\<open>None\<close>. So a row maps
  a column name to \<open>Some None\<close> (the column exists, the line has no such field), to
  \<open>Some (Some s)\<close>, or to \<open>None\<close> when the header has no such column.
\<close>

type_synonym row = "string \<rightharpoonup> string option"

record node =
  node_id :: int
  node_name :: "string option"
  node_group :: "string option"
  node_unit :: "string option"
  node_contact :: "string option"

text \<open>\<^verbatim>\<open>row[k]\<close>\<close>

definition row_field :: "row \<Rightarrow> string \<Rightarrow> error + string option" where
  "row_field r k = (case r k of None \<Rightarrow> Inl KeyError | Some v \<Rightarrow> Inr v)"

text \<open>\<^verbatim>\<open>int(x)\<close> where \<open>x\<close> is a string or \<^verbatim>\<open>None\<close>.\<close>

definition to_int :: "string option \<Rightarrow> error + int" where
  "to_int v = (case v of None \<Rightarrow> Inl TypeError
     | Some s \<Rightarrow> (case py_int s of None \<Rightarrow> Inl ValueError | Some n \<Rightarrow> Inr n))"

definition connection_keys :: "string list" where
  "connection_keys = [''connectionID1'', ''connectionID2'', ''connectionID3'',
     ''connectionID4'', ''connectionID5'']"

text \<open>
  The body of \<^verbatim>\<open>for i in range(1, 6)\<close> for one key: the guard
  \<^verbatim>\<open>key in row and row[key] and row[key].strip()\<close>, then \<^verbatim>\<open>int(row[key])\<close> with
  \<^verbatim>\<open>ValueError\<close> caught, then the test against \<^verbatim>\<open>node_id\<close>.
\<close>

definition add_connection :: "row \<Rightarrow> int \<Rightarrow> string \<Rightarrow> adj \<Rightarrow> error + adj" where
  "add_connection r nid key adj =
     (case r key of
        Some (Some s) \<Rightarrow>
          if s \<noteq> [] \<and> strip s \<noteq> [] then
            (case py_int s of
               None \<Rightarrow> Inr adj
             | Some target \<Rightarrow> if target \<noteq> nid then adj_add adj nid target else Inr adj)
          else Inr adj
      | _ \<Rightarrow> Inr adj)"

fun add_connections :: "row \<Rightarrow> int \<Rightarrow> string list \<Rightarrow> adj \<Rightarrow> error + adj" where
  "add_connections r nid [] adj = Inr adj"
| "add_connections r nid (key # keys) adj =
     raising (add_connection r nid key adj) (add_connections r nid keys)"

text \<open>The body of \<^verbatim>\<open>for row in reader\<close>.\<close>

definition parse_row :: "row \<Rightarrow> node list \<times> adj \<Rightarrow> error + node list \<times> adj" where
  "parse_row r st =
     raising (row_field r ''id'') (\<lambda>idv.
     raising (to_int idv) (\<lambda>nid.
     raising (row_field r ''nodeName'') (\<lambda>nm.
     raising (row_field r ''group'') (\<lambda>gr.
     raising (row_field r ''unit'') (\<lambda>un.
     raising (row_field r ''contact'') (\<lambda>co.
     raising (add_connections r nid connection_keys (setdefault (snd st) nid)) (\<lambda>adj'.
       Inr (fst st @ [\<lparr>node_id = nid, node_name = nm, node_group = gr,
              node_unit = un, node_contact = co\<rparr>], adj'))))))))"

fun parse_rows :: "row list \<Rightarrow> node list \<times> adj \<Rightarrow> error + node list \<times> adj" where
  "parse_rows [] st = Inr st"
| "parse_rows (r # rs) st = raising (parse_row r st) (parse_rows rs)"

text \<open>
  The symmetry pass. \<^verbatim>\<open>list(adj.items())\<close> is a snapshot of the keys, but each
  \<^verbatim>\<open>neighbors\<close> is the set object itself, which earlier rounds may have enlarged: the
  model reads the set of \<open>u\<close> when the round of \<open>u\<close> starts. Within the round of \<open>u\<close>
  only sets of keys \<open>v\<close> in \<^verbatim>\<open>neighbors\<close> receive an element, and the set of \<open>u\<close> itself
  can only receive \<open>u\<close> when it already holds it, so the set being iterated is fixed.
\<close>

fun sym_inner :: "int \<Rightarrow> int list \<Rightarrow> adj \<Rightarrow> adj" where
  "sym_inner u [] adj = adj"
| "sym_inner u (v # vs) adj = sym_inner u vs (add_to (setdefault adj v) v u)"

fun symmetrize :: "int list \<Rightarrow> adj \<Rightarrow> adj" where
  "symmetrize [] adj = adj"
| "symmetrize (u # us) adj = symmetrize us (sym_inner u (adj_get adj u) adj)"

definition parse_input :: "row list \<Rightarrow> error + node list \<times> adj" where
  "parse_input rows =
     (case parse_rows rows ([], []) of
        Inl e \<Rightarrow> Inl e
      | Inr (nodes, adj) \<Rightarrow> Inr (nodes, symmetrize (map fst adj) adj))"

section \<open>\<^verbatim>\<open>find_articulation_points\<close>\<close>

text \<open>
  The variables of \<^verbatim>\<open>find_articulation_points\<close> that the nested function \<^verbatim>\<open>dfs\<close>
  shares: the counter \<^verbatim>\<open>time\<close>, the set \<^verbatim>\<open>visited\<close>, the dictionaries \<^verbatim>\<open>disc\<close>,
  \<^verbatim>\<open>low\<close> and \<^verbatim>\<open>parent\<close>, and the set \<^verbatim>\<open>articulation\<close>. The field \<open>frames\<close> is not a
  variable of the script: it records the largest number of activations of \<^verbatim>\<open>dfs\<close> that
  were on the call stack at the same time, and nothing reads it.
\<close>

record state =
  time :: int
  visited :: "int set"
  disc :: "int \<rightharpoonup> int"
  low :: "int \<rightharpoonup> int"
  parent :: "int \<rightharpoonup> int"
  articulation :: "int set"
  frames :: nat

definition init_state :: state where
  "init_state = \<lparr>time = 0, visited = {}, disc = Map.empty, low = Map.empty,
     parent = Map.empty, articulation = {}, frames = 0\<rparr>"

text \<open>
  The first four statements of \<^verbatim>\<open>dfs(u)\<close>, run in an activation that is the
  \<open>depth\<close>-th on the call stack.
\<close>

definition enter :: "nat \<Rightarrow> int \<Rightarrow> state \<Rightarrow> state" where
  "enter depth u s = s\<lparr>visited := insert u (visited s), disc := (disc s)(u \<mapsto> time s),
     low := (low s)(u \<mapsto> time s), time := time s + 1, frames := max (frames s) depth\<rparr>"

text \<open>\<^verbatim>\<open>d[k]\<close> on a dictionary.\<close>

definition subscript :: "(int \<rightharpoonup> int) \<Rightarrow> int \<Rightarrow> error + int" where
  "subscript d k = (case d k of None \<Rightarrow> Inl KeyError | Some x \<Rightarrow> Inr x)"

text \<open>
  The statements after the recursive call \<^verbatim>\<open>dfs(v)\<close>: the update of \<^verbatim>\<open>low[u]\<close> and the
  two tests that add \<open>u\<close> to \<^verbatim>\<open>articulation\<close>.
\<close>

definition after_child :: "int \<Rightarrow> int \<Rightarrow> int \<Rightarrow> state \<Rightarrow> error + state" where
  "after_child u v children s =
     raising (subscript (low s) u) (\<lambda>lu.
     raising (subscript (low s) v) (\<lambda>lv.
       let s1 = s\<lparr>low := (low s)(u \<mapsto> min lu lv)\<rparr>;
           s2 = (if parent s1 u = None \<and> children > 1
                 then s1\<lparr>articulation := insert u (articulation s1)\<rparr> else s1)
       in if parent s2 u \<noteq> None then
            raising (subscript (low s2) v) (\<lambda>lv'.
            raising (subscript (disc s2) u) (\<lambda>du.
              Inr (if lv' \<ge> du then s2\<lparr>articulation := insert u (articulation s2)\<rparr>
                   else s2)))
          else Inr s2))"

text \<open>The branch \<^verbatim>\<open>elif parent.get(u) != v\<close>: \<^verbatim>\<open>low[u] = min(low[u], disc[v])\<close>.\<close>

definition back_edge :: "int \<Rightarrow> int \<Rightarrow> state \<Rightarrow> error + state" where
  "back_edge u v s =
     raising (subscript (low s) u) (\<lambda>lu.
     raising (subscript (disc s) v) (\<lambda>dv.
       Inr (s\<lparr>low := (low s)(u \<mapsto> min lu dv)\<rparr>)))"

text \<open>
  The loop \<^verbatim>\<open>for v in adj.get(u, [])\<close> of \<^verbatim>\<open>dfs(u)\<close>, with the neighbours still to
  come and the local counter \<^verbatim>\<open>children\<close>. The recursive call \<^verbatim>\<open>dfs(v)\<close> is the head
  of \<^verbatim>\<open>dfs\<close> followed by the loop of \<open>v\<close>, one activation deeper. The result \<open>None\<close>
  means that the traversal does not return.

  The script does not change the recursion limit of the interpreter
  (\<^verbatim>\<open>sys.setrecursionlimit\<close> is never called), so the call \<^verbatim>\<open>dfs(v)\<close> raises
  \<^verbatim>\<open>RecursionError\<close> when the call stack is full, and nothing catches it. The number
  \<open>limit\<close> is the number of activations of \<^verbatim>\<open>dfs\<close> that fit on the call stack: the
  recursion limit of the interpreter less the frames that are on the stack when
  \<^verbatim>\<open>find_articulation_points\<close> makes its first call of \<^verbatim>\<open>dfs\<close>.
\<close>

partial_function (option) dfs_loop ::
  "nat \<Rightarrow> adj \<Rightarrow> nat \<Rightarrow> int \<Rightarrow> int \<Rightarrow> int list \<Rightarrow> state \<Rightarrow> (error + state) option" where
  "dfs_loop limit adj depth u children vs s =
     (case vs of
        [] \<Rightarrow> Some (Inr s)
      | v # rest \<Rightarrow>
          if v \<notin> visited s then
            if limit < depth + 1 then Some (Inl RecursionError)
            else
              Option.bind
                (dfs_loop limit adj (depth + 1) v 0 (adj_get adj v)
                   (enter (depth + 1) v (s\<lparr>parent := (parent s)(v \<mapsto> u)\<rparr>)))
                (\<lambda>r. case r of
                   Inl e \<Rightarrow> Some (Inl e)
                 | Inr s1 \<Rightarrow>
                     (case after_child u v (children + 1) s1 of
                        Inl e \<Rightarrow> Some (Inl e)
                      | Inr s2 \<Rightarrow> dfs_loop limit adj depth u (children + 1) rest s2))
          else if parent s u \<noteq> Some v then
            (case back_edge u v s of
               Inl e \<Rightarrow> Some (Inl e)
             | Inr s1 \<Rightarrow> dfs_loop limit adj depth u children rest s1)
          else dfs_loop limit adj depth u children rest s)"

declare dfs_loop.simps [code]

text \<open>\<^verbatim>\<open>dfs(u)\<close>, called to become the \<open>depth\<close>-th activation.\<close>

definition dfs :: "nat \<Rightarrow> adj \<Rightarrow> nat \<Rightarrow> int \<Rightarrow> state \<Rightarrow> (error + state) option" where
  "dfs limit adj depth u s =
     (if limit < depth then Some (Inl RecursionError)
      else dfs_loop limit adj depth u 0 (adj_get adj u) (enter depth u s))"

text \<open>The loop \<^verbatim>\<open>for u in adj\<close> over the keys of the dictionary.\<close>

fun roots :: "nat \<Rightarrow> adj \<Rightarrow> int list \<Rightarrow> state \<Rightarrow> (error + state) option" where
  "roots limit adj [] s = Some (Inr s)"
| "roots limit adj (u # us) s =
     (if u \<notin> visited s then
        (case dfs limit adj 1 u s of
           None \<Rightarrow> None
         | Some (Inl e) \<Rightarrow> Some (Inl e)
         | Some (Inr s') \<Rightarrow> roots limit adj us s')
      else roots limit adj us s)"

definition run :: "nat \<Rightarrow> adj \<Rightarrow> (error + state) option" where
  "run limit adj = roots limit adj (map fst adj) init_state"

definition find_articulation_points :: "nat \<Rightarrow> adj \<Rightarrow> (error + int set) option" where
  "find_articulation_points limit adj = map_option (map_sum id articulation) (run limit adj)"

text \<open>
  The default recursion limit of the interpreter (\<^verbatim>\<open>sys.getrecursionlimit()\<close>). When the
  file is run as a script, three frames are on the call stack below the first
  activation of \<^verbatim>\<open>dfs\<close>: the module, \<^verbatim>\<open>main\<close> and \<^verbatim>\<open>find_articulation_points\<close>.
\<close>

definition recursion_limit :: nat where
  "recursion_limit = 1000"

definition script_limit :: nat where
  "script_limit = recursion_limit - 3"

text \<open>The path graph on the nodes 1 to 5.\<close>

definition path5 :: adj where
  "path5 = [(1, [2]), (2, [1, 3]), (3, [2, 4]), (4, [3, 5]), (5, [4])]"

section \<open>The edge list of \<^verbatim>\<open>build_html\<close>\<close>

text \<open>
  The loop that fills \<^verbatim>\<open>vis_edges\<close>. The key \<^verbatim>\<open>frozenset((u, v))\<close> is the set \<open>{u, v}\<close>;
  the record \<^verbatim>\<open>{'from': u, 'to': v}\<close> is the pair \<open>(u, v)\<close>. The state is the pair of
  \<^verbatim>\<open>added\<close> and \<^verbatim>\<open>vis_edges\<close>.
\<close>

fun edges_inner :: "int \<Rightarrow> int list \<Rightarrow> int set set \<times> (int \<times> int) list
    \<Rightarrow> int set set \<times> (int \<times> int) list" where
  "edges_inner u [] st = st"
| "edges_inner u (v # vs) st =
     (if {u, v} \<notin> fst st
      then edges_inner u vs (insert {u, v} (fst st), snd st @ [(u, v)])
      else edges_inner u vs st)"

fun edges_outer :: "adj \<Rightarrow> int set set \<times> (int \<times> int) list
    \<Rightarrow> int set set \<times> (int \<times> int) list" where
  "edges_outer [] st = st"
| "edges_outer ((u, neighbors) # items) st = edges_outer items (edges_inner u neighbors st)"

definition vis_edges :: "adj \<Rightarrow> (int \<times> int) list" where
  "vis_edges adj = snd (edges_outer adj ({}, []))"

section \<open>The graph of an adjacency map\<close>

definition keys :: "adj \<Rightarrow> int set" where
  "keys adj = fst ` set adj"

definition nbrs :: "adj \<Rightarrow> int \<Rightarrow> int set" where
  "nbrs adj u = set (adj_get adj u)"

text \<open>What one row says: its identifier and the neighbours its connection fields name.\<close>

definition row_id :: "row \<Rightarrow> int option" where
  "row_id r = (case r ''id'' of Some (Some s) \<Rightarrow> py_int s | _ \<Rightarrow> None)"

definition field_target :: "row \<Rightarrow> string \<Rightarrow> int option" where
  "field_target r key =
     (case r key of
        Some (Some s) \<Rightarrow> if s \<noteq> [] \<and> strip s \<noteq> [] then py_int s else None
      | _ \<Rightarrow> None)"

definition row_targets :: "row \<Rightarrow> string list \<Rightarrow> int \<Rightarrow> int set" where
  "row_targets r ks n = {t. \<exists>key \<in> set ks. field_target r key = Some t \<and> t \<noteq> n}"

definition has_columns :: "row \<Rightarrow> bool" where
  "has_columns r = (r ''nodeName'' \<noteq> None \<and> r ''group'' \<noteq> None
     \<and> r ''unit'' \<noteq> None \<and> r ''contact'' \<noteq> None)"

definition row_node :: "row \<Rightarrow> node" where
  "row_node r = \<lparr>node_id = the (row_id r), node_name = the (r ''nodeName''),
     node_group = the (r ''group''), node_unit = the (r ''unit''),
     node_contact = the (r ''contact'')\<rparr>"

text \<open>The directed references of a list of rows: \<open>u\<close> names \<open>v\<close> in a connection field.\<close>

definition refs :: "row list \<Rightarrow> int \<Rightarrow> int \<Rightarrow> bool" where
  "refs rows u v = (\<exists>r \<in> set rows. row_id r = Some u \<and> v \<in> row_targets r connection_keys u)"

definition symmetric :: "adj \<Rightarrow> bool" where
  "symmetric adj = (\<forall>u v. v \<in> nbrs adj u \<longleftrightarrow> u \<in> nbrs adj v)"

definition loop_free :: "adj \<Rightarrow> bool" where
  "loop_free adj = (\<forall>u. u \<notin> nbrs adj u)"

text \<open>A row that \<^verbatim>\<open>parse_input\<close> accepts: its identifier parses and the four
  descriptive columns exist.\<close>

definition row_ok :: "row \<Rightarrow> bool" where
  "row_ok r = (row_id r \<noteq> None \<and> has_columns r)"

definition ids :: "row list \<Rightarrow> int set" where
  "ids rows = {n. \<exists>r \<in> set rows. row_id r = Some n}"

definition sym_closure :: "adj \<Rightarrow> int \<Rightarrow> int set" where
  "sym_closure adj w = nbrs adj w \<union> {v. w \<in> nbrs adj v}"

text \<open>A connection field that names no neighbour: the column is absent, the line has
  no such field, or the field is empty, blank or not a number.\<close>

definition bad_field :: "row \<Rightarrow> string \<Rightarrow> bool" where
  "bad_field r key =
     (case r key of
        Some (Some s) \<Rightarrow> s = [] \<or> strip s = [] \<or> py_int s = None
      | _ \<Rightarrow> True)"

text \<open>Three lines of a file: the first and the third carry the same identifier, and
  several connection fields are empty, blank, absent or not numbers.\<close>

definition example_rows :: "row list" where
  "example_rows =
    [map_of [(''id'', Some ''1''), (''nodeName'', Some ''Alpha''), (''group'', Some ''Research''),
       (''unit'', Some ''U1''), (''contact'', Some ''a@x''),
       (''connectionID1'', Some ''2''), (''connectionID2'', Some ''n/a''),
       (''connectionID3'', Some []), (''connectionID4'', Some '' 7 '')],
     map_of [(''id'', Some ''2''), (''nodeName'', Some ''Beta''), (''group'', Some ''Support''),
       (''unit'', Some ''U2''), (''contact'', Some ''b@x''),
       (''connectionID1'', Some ''2''), (''connectionID2'', Some ''3''),
       (''connectionID3'', None), (''connectionID4'', None)],
     map_of [(''id'', Some ''1''), (''nodeName'', Some ''Gamma''), (''group'', Some ''Research''),
       (''unit'', Some ''U3''), (''contact'', Some ''c@x''),
       (''connectionID1'', Some ''3''), (''connectionID2'', Some ''  ''),
       (''connectionID3'', Some ''-4''), (''connectionID4'', Some ''1_0'')]]"

definition example_nodes :: "node list" where
  "example_nodes =
    [\<lparr>node_id = 1, node_name = Some ''Alpha'', node_group = Some ''Research'',
        node_unit = Some ''U1'', node_contact = Some ''a@x''\<rparr>,
     \<lparr>node_id = 2, node_name = Some ''Beta'', node_group = Some ''Support'',
        node_unit = Some ''U2'', node_contact = Some ''b@x''\<rparr>,
     \<lparr>node_id = 1, node_name = Some ''Gamma'', node_group = Some ''Research'',
        node_unit = Some ''U3'', node_contact = Some ''c@x''\<rparr>]"

definition example_adj :: adj where
  "example_adj = [(1, [2, 7, 3, - 4, 10]), (2, [3, 1]), (7, [1]), (3, [1, 2]),
     (- 4, [1]), (10, [1])]"

text \<open>The same file with a fourth line whose identifier is not a number.\<close>

definition bad_rows :: "row list" where
  "bad_rows = example_rows @
    [map_of [(''id'', Some ''x9''), (''nodeName'', Some ''Delta''), (''group'', Some ''Support''),
       (''unit'', Some ''U4''), (''contact'', Some ''d@x''),
       (''connectionID1'', Some ''1''), (''connectionID2'', None),
       (''connectionID3'', None), (''connectionID4'', None)]]"

text \<open>A file whose header has no column \<^verbatim>\<open>group\<close>, with one line whose identifier
  parses.\<close>

definition no_group_rows :: "row list" where
  "no_group_rows =
    [map_of [(''id'', Some ''1''), (''nodeName'', Some ''Alpha''), (''unit'', Some ''U1''),
       (''contact'', Some ''a@x''), (''connectionID1'', Some ''2'')]]"

text \<open>The entries of an adjacency map as directed pairs, and the undirected edge of a pair.\<close>

definition pairs :: "adj \<Rightarrow> (int \<times> int) set" where
  "pairs adj = {(u, v). \<exists>ns. (u, ns) \<in> set adj \<and> v \<in> set ns}"

definition edge_key :: "int \<times> int \<Rightarrow> int set" where
  "edge_key e = {fst e, snd e}"

definition undirected_edges :: "adj \<Rightarrow> int set set" where
  "undirected_edges adj = {{u, v} |u v. v \<in> nbrs adj u}"

text \<open>What the loop of \<^verbatim>\<open>build_html\<close> keeps: \<^verbatim>\<open>added\<close> holds the keys of the records
  in \<^verbatim>\<open>vis_edges\<close>, and no two records have the same key.\<close>

definition edges_ok :: "int set set \<times> (int \<times> int) list \<Rightarrow> bool" where
  "edges_ok st = (fst st = edge_key ` set (snd st) \<and> distinct (map edge_key (snd st)))"

section \<open>Connected components and cut nodes\<close>

text \<open>The directed pairs \<open>(u, v)\<close> with \<open>v\<close> in \<^verbatim>\<open>adj[u]\<close>.\<close>

definition edges :: "adj \<Rightarrow> (int \<times> int) set" where
  "edges adj = {(u, v). v \<in> nbrs adj u}"

text \<open>The graph without the node \<open>u\<close> and without the edges at \<open>u\<close>.\<close>

definition remove_node :: "adj \<Rightarrow> int \<Rightarrow> adj" where
  "remove_node adj u = map (\<lambda>(k, ns). (k, removeAll u ns)) (filter (\<lambda>(k, ns). k \<noteq> u) adj)"

definition component :: "adj \<Rightarrow> int \<Rightarrow> int set" where
  "component adj v = {w. (v, w) \<in> (edges adj)\<^sup>*}"

definition components :: "adj \<Rightarrow> int set set" where
  "components adj = component adj ` keys adj"

definition num_components :: "adj \<Rightarrow> nat" where
  "num_components adj = card (components adj)"

text \<open>The edges between nodes outside the set \<open>X\<close>.\<close>

definition avoiding :: "adj \<Rightarrow> int set \<Rightarrow> (int \<times> int) set" where
  "avoiding adj X = {(a, b). b \<in> nbrs adj a \<and> a \<notin> X \<and> b \<notin> X}"

text \<open>
  A cut node: two other nodes of its component that no path joins once \<open>u\<close> is taken
  away.
\<close>

definition is_cut :: "adj \<Rightarrow> int \<Rightarrow> bool" where
  "is_cut adj u = (\<exists>a b. a \<noteq> u \<and> b \<noteq> u \<and> (u, a) \<in> (edges adj)\<^sup>* \<and> (u, b) \<in> (edges adj)\<^sup>*
     \<and> (a, b) \<notin> (avoiding adj {u})\<^sup>*)"

section \<open>The invariant of the traversal\<close>

text \<open>
  The predicates below describe the state \<open>s\<close> inside the activation \<^verbatim>\<open>dfs(u)\<close> that
  started in the state \<open>s0\<close> (with \<^verbatim>\<open>parent[u]\<close> already set by the caller), while the
  nodes of \<open>rest\<close> are the activations below it on the call stack, the nearest first.
\<close>

definition disc_bounded :: "state \<Rightarrow> bool" where
  "disc_bounded s = (\<forall>w d. disc s w = Some d \<longrightarrow> d < time s)"

definition wf_state :: "state \<Rightarrow> bool" where
  "wf_state s = (dom (disc s) = visited s \<and> dom (low s) = visited s
     \<and> dom (parent s) \<subseteq> visited s \<and> disc_bounded s)"

text \<open>Every node of \<open>S\<close> that is not on the stack has all its neighbours in \<open>S\<close>.\<close>

definition closed :: "adj \<Rightarrow> int set \<Rightarrow> int list \<Rightarrow> bool" where
  "closed adj S stk = (\<forall>y \<in> S - set stk. nbrs adj y \<subseteq> S)"

text \<open>The nodes on the stack are visited, pairwise different and joined by paths that
  stay on the stack.\<close>

definition stack_ok :: "adj \<Rightarrow> int set \<Rightarrow> int list \<Rightarrow> bool" where
  "stack_ok adj S stk = (set stk \<subseteq> S \<and> distinct stk
     \<and> (\<forall>a \<in> set stk. \<forall>b \<in> set stk. (a, b) \<in> (avoiding adj (- set stk))\<^sup>*))"

definition parent_ok :: "adj \<Rightarrow> state \<Rightarrow> int \<Rightarrow> int list \<Rightarrow> bool" where
  "parent_ok adj s0 u stk = (parent s0 u = (case stk of [] \<Rightarrow> None | p # _ \<Rightarrow> Some p)
     \<and> (\<forall>p. parent s0 u = Some p \<longrightarrow> p \<in> nbrs adj u))"

definition entry :: "adj \<Rightarrow> state \<Rightarrow> int \<Rightarrow> int list \<Rightarrow> bool" where
  "entry adj s0 u stk = (u \<notin> visited s0 \<and> disc_bounded s0 \<and> closed adj (visited s0) stk
     \<and> stack_ok adj (visited s0) stk \<and> parent_ok adj s0 u stk)"

definition art_sound :: "adj \<Rightarrow> state \<Rightarrow> bool" where
  "art_sound adj s = (\<forall>a \<in> articulation s. is_cut adj a)"

definition art_complete :: "adj \<Rightarrow> state \<Rightarrow> int list \<Rightarrow> bool" where
  "art_complete adj s stk = (\<forall>y \<in> visited s - set stk. is_cut adj y \<longrightarrow> y \<in> articulation s)"

text \<open>What a caller has established when it calls \<^verbatim>\<open>dfs(u)\<close> in the state \<open>s0\<close>.\<close>

definition pre_call :: "adj \<Rightarrow> state \<Rightarrow> int \<Rightarrow> int list \<Rightarrow> bool" where
  "pre_call adj s0 u stk = (entry adj s0 u stk
     \<and> dom (disc s0) = visited s0 \<and> dom (low s0) = visited s0
     \<and> dom (parent s0) \<subseteq> insert u (visited s0)
     \<and> art_sound adj s0 \<and> art_complete adj s0 stk)"

text \<open>What the activation of \<open>u\<close> has left unchanged since \<open>s0\<close>.\<close>

definition frame :: "state \<Rightarrow> int \<Rightarrow> state \<Rightarrow> bool" where
  "frame s0 u s = (insert u (visited s0) \<subseteq> visited s
     \<and> (\<forall>w \<in> visited s0. disc s w = disc s0 w \<and> low s w = low s0 w \<and> parent s w = parent s0 w)
     \<and> parent s u = parent s0 u \<and> articulation s0 \<subseteq> articulation s
     \<and> disc s u = Some (time s0)
     \<and> (\<forall>w \<in> visited s - visited s0. \<forall>d. disc s w = Some d \<longrightarrow> time s0 \<le> d))"

text \<open>The neighbours of \<open>u\<close> still to come are \<open>vs\<close>; the others are visited. The nodes
  visited since \<open>s0\<close>, except \<open>u\<close>, have all their neighbours visited, and paths outside
  the nodes of \<open>s0\<close> join \<open>u\<close> to each of them.\<close>

definition progress :: "adj \<Rightarrow> state \<Rightarrow> int \<Rightarrow> int list \<Rightarrow> state \<Rightarrow> bool" where
  "progress adj s0 u vs s = (set vs \<subseteq> nbrs adj u \<and> nbrs adj u - set vs \<subseteq> visited s
     \<and> (\<forall>y \<in> visited s - visited s0 - {u}. nbrs adj y \<subseteq> visited s)
     \<and> (\<forall>x \<in> visited s - visited s0. (u, x) \<in> (avoiding adj (visited s0))\<^sup>*))"

text \<open>
  \<^verbatim>\<open>low[u]\<close> is at most \<^verbatim>\<open>disc[u]\<close>; it is \<^verbatim>\<open>disc[u]\<close> or the \<^verbatim>\<open>disc\<close> of a node of \<open>s0\<close>
  that an edge joins to a node visited since; and it is at most the \<^verbatim>\<open>disc\<close> of every
  node of \<open>s0\<close> that such an edge reaches, the edge from \<open>u\<close> to its parent and the edges
  from \<open>u\<close> to neighbours still to come apart.
\<close>

definition low_inv :: "adj \<Rightarrow> state \<Rightarrow> int \<Rightarrow> int list \<Rightarrow> state \<Rightarrow> bool" where
  "low_inv adj s0 u vs s = (\<exists>lu. low s u = Some lu \<and> lu \<le> time s0
     \<and> (lu = time s0 \<or> (\<exists>x \<in> visited s - visited s0. \<exists>w \<in> visited s0.
           w \<in> nbrs adj x \<and> \<not> (x = u \<and> parent s0 u = Some w) \<and> disc s0 w = Some lu))
     \<and> (\<forall>x \<in> visited s - visited s0. \<forall>w \<in> visited s0.
           w \<in> nbrs adj x \<and> \<not> (x = u \<and> (parent s0 u = Some w \<or> w \<in> set vs))
           \<longrightarrow> (\<exists>d. disc s0 w = Some d \<and> lu \<le> d)))"

text \<open>
  Either \<open>u\<close> is already in \<^verbatim>\<open>articulation\<close>, or paths that avoid \<open>u\<close> join all nodes
  visited since \<open>s0\<close> and all nodes of the stack; \<^verbatim>\<open>children\<close> is zero exactly when no
  node but \<open>u\<close> has been visited since \<open>s0\<close>.
\<close>

definition art_progress :: "adj \<Rightarrow> state \<Rightarrow> int \<Rightarrow> int list \<Rightarrow> int \<Rightarrow> state \<Rightarrow> bool" where
  "art_progress adj s0 u stk c s =
     ((u \<in> articulation s \<or>
        (\<forall>a \<in> (visited s - visited s0 - {u}) \<union> set stk.
         \<forall>b \<in> (visited s - visited s0 - {u}) \<union> set stk. (a, b) \<in> (avoiding adj {u})\<^sup>*))
      \<and> 0 \<le> c \<and> (c = 0 \<longleftrightarrow> visited s - visited s0 = {u}))"

definition loop_inv :: "adj \<Rightarrow> state \<Rightarrow> int \<Rightarrow> int list \<Rightarrow> int \<Rightarrow> int list \<Rightarrow> state \<Rightarrow> bool" where
  "loop_inv adj s0 u stk c vs s = (entry adj s0 u stk \<and> wf_state s \<and> frame s0 u s
     \<and> progress adj s0 u vs s \<and> low_inv adj s0 u vs s
     \<and> art_sound adj s \<and> art_complete adj s (u # stk) \<and> art_progress adj s0 u stk c s)"

text \<open>Between two iterations of \<^verbatim>\<open>for u in adj\<close>: no activation is on the stack.\<close>

definition top_inv :: "adj \<Rightarrow> state \<Rightarrow> bool" where
  "top_inv adj s = (wf_state s \<and> closed adj (visited s) [] \<and> art_sound adj s
     \<and> art_complete adj s [])"

text \<open>
  The situation after \<^verbatim>\<open>dfs(v)\<close> has returned into the loop of \<open>u\<close>: the loop of \<open>u\<close>
  was in the state \<open>s\<close> with \<open>v\<close> unvisited, the call started in \<open>sm\<close>, which is \<open>s\<close>
  with \<^verbatim>\<open>parent[v] = u\<close>, and ended in \<open>s1\<close>.
\<close>

definition child_done :: "adj \<Rightarrow> state \<Rightarrow> int \<Rightarrow> int list \<Rightarrow> int \<Rightarrow> int \<Rightarrow> int list
    \<Rightarrow> state \<Rightarrow> state \<Rightarrow> int \<Rightarrow> state \<Rightarrow> bool" where
  "child_done adj s0 u stk c v vs s sm c1 s1 =
     (symmetric adj \<and> loop_free adj \<and> loop_inv adj s0 u stk c (v # vs) s \<and> v \<notin> visited s
      \<and> visited sm = visited s \<and> disc sm = disc s \<and> low sm = low s
      \<and> parent sm = (parent s)(v \<mapsto> u) \<and> time sm = time s
      \<and> articulation sm = articulation s
      \<and> loop_inv adj sm v (u # stk) c1 [] s1)"


text \<open>All identifiers that occur in an adjacency map, as keys or as neighbours.\<close>

definition all_nodes :: "adj \<Rightarrow> int set" where
  "all_nodes adj = keys adj \<union> \<Union> (set ` snd ` set adj)"

text \<open>Every visited node has its entries in \<^verbatim>\<open>disc\<close> and \<^verbatim>\<open>low\<close>, so that no subscript
  of the traversal raises \<^verbatim>\<open>KeyError\<close>.\<close>

definition safe :: "state \<Rightarrow> bool" where
  "safe s = (dom (disc s) = visited s \<and> dom (low s) = visited s)"

text \<open>The path graph with the nodes 1 to \<open>n\<close>, and the path graph with five nodes with
  its keys and neighbours in the opposite order.\<close>

definition path_graph :: "int \<Rightarrow> adj" where
  "path_graph n = map (\<lambda>i. (i, filter (\<lambda>j. 1 \<le> j \<and> j \<le> n) [i - 1, i + 1])) [1..n]"

definition path5_rev :: adj where
  "path5_rev = [(5, [4]), (4, [5, 3]), (3, [4, 2]), (2, [3, 1]), (1, [2])]"

text \<open>The largest number of activations of \<^verbatim>\<open>dfs\<close> on the call stack during
  \<^verbatim>\<open>find_articulation_points(adj)\<close>.\<close>

definition max_frames :: "nat \<Rightarrow> adj \<Rightarrow> (error + nat) option" where
  "max_frames limit adj = map_option (map_sum id frames) (run limit adj)"

text \<open>Some connected component has more nodes than activations of \<^verbatim>\<open>dfs\<close> fit on
  the call stack.\<close>

definition deep :: "nat \<Rightarrow> adj \<Rightarrow> bool" where
  "deep limit adj = (\<exists>w \<in> keys adj. limit < card (component adj w))"

text \<open>The outcome \<open>r\<close> is the state \<open>s\<close> or an overflow of the call stack.\<close>

definition returns_or_overflows :: "(error + 'a) option \<Rightarrow> 'a \<Rightarrow> bool" where
  "returns_or_overflows r s = (r = Some (Inr s) \<or> r = Some (Inl RecursionError))"

section \<open>Facts about \<^verbatim>\<open>int()\<close>\<close>

text \<open>
  Some values of \<^verbatim>\<open>int\<close>: white space at both ends, a sign, underscores between
  digits; the character 28, which \<^verbatim>\<open>strip\<close> removes and \<^verbatim>\<open>int\<close> rejects; the no-break
  space 160, which \<^verbatim>\<open>int\<close> skips; and a string with more digits than \<^verbatim>\<open>int\<close> converts.
\<close>

lemma py_int_examples:
  "py_int '' 7 '' = Some 7" "py_int ''-4'' = Some (- 4)" "py_int ''1_0'' = Some 10"
  "py_int ''n/a'' = None" "py_int ''1__0'' = None" "py_int ''+ 5'' = None"
  "strip [CHR 0x1C, CHR ''5''] = ''5''" "py_int [CHR 0x1C, CHR ''5''] = None"
  "py_int [CHR 0xA0, CHR ''5''] = Some 5"
  by code_simp+

lemma unsigned_int_too_long:
  "max_str_digits < length (filter is_digit s) \<Longrightarrow> unsigned_int s = None"
  by (cases s) (auto simp: unsigned_int_def)

lemma py_int_too_long: "py_int (replicate 4301 (CHR ''0'')) = None"
proof -
  have d: "is_digit (CHR ''0'')" and ns: "\<not> is_int_space (CHR ''0'')"
    by (simp_all add: is_digit_def is_int_space_def)
  have r: "replicate 4301 (CHR ''0'') = CHR ''0'' # replicate 4300 (CHR ''0'')"
    by (simp add: replicate_Suc [symmetric] del: replicate_Suc)
  have "rev (dropWhile is_int_space (rev (dropWhile is_int_space (replicate 4301 (CHR ''0'')))))
      = replicate 4301 (CHR ''0'')"
    using ns by (simp add: dropWhile_replicate)
  moreover have "unsigned_int (replicate 4301 (CHR ''0'')) = None"
    by (rule unsigned_int_too_long) (simp add: d max_str_digits_def)
  ultimately show ?thesis unfolding py_int_def r [symmetric] by (simp add: r)
qed

section \<open>Facts about the dictionary operations\<close>

lemma map_of_not_key: "u \<notin> keys adj \<Longrightarrow> map_of adj u = None"
  by (simp add: keys_def map_of_eq_None_iff)

lemma map_of_key: "u \<in> keys adj \<Longrightarrow> \<exists>ns. map_of adj u = Some ns"
  by (cases "map_of adj u") (auto simp: keys_def map_of_eq_None_iff)

lemma nbrs_not_key: "u \<notin> keys adj \<Longrightarrow> nbrs adj u = {}"
  by (simp add: nbrs_def adj_get_def map_of_not_key)

lemma map_of_setdefault:
  "map_of (setdefault adj u) w =
     (if w = u \<and> u \<notin> keys adj then Some [] else map_of adj w)"
proof (cases "u \<in> keys adj")
  case True
  then show ?thesis by (simp add: setdefault_def keys_def)
next
  case False
  then have "map_of adj u = None" by (rule map_of_not_key)
  with False show ?thesis
    by (auto simp: setdefault_def keys_def map_add_def split: option.splits)
qed

lemma keys_setdefault: "keys (setdefault adj u) = insert u (keys adj)"
  by (auto simp: keys_def setdefault_def)

lemma nbrs_setdefault: "nbrs (setdefault adj u) w = nbrs adj w"
  by (simp add: nbrs_def adj_get_def map_of_setdefault map_of_not_key)

lemma distinct_setdefault:
  "distinct (map fst adj) \<Longrightarrow> distinct (map fst (setdefault adj u))"
  by (auto simp: setdefault_def)

lemma map_fst_add_to: "map fst (add_to adj u x) = map fst adj"
  by (induction adj) (auto simp: add_to_def)

lemma keys_add_to: "keys (add_to adj u x) = keys adj"
  using map_fst_add_to [of adj u x] by (metis keys_def set_map)

lemma map_of_add_to:
  "map_of (add_to adj u x) w =
     (if w = u then map_option (\<lambda>ns. set_add ns x) (map_of adj u) else map_of adj w)"
  by (induction adj) (auto simp: add_to_def)

lemma set_set_add: "set (set_add ns x) = insert x (set ns)"
  by (auto simp: set_add_def)

lemma nbrs_add_to:
  "nbrs (add_to adj u x) w =
     (if w = u \<and> u \<in> keys adj then insert x (nbrs adj u) else nbrs adj w)"
proof (cases "u \<in> keys adj")
  case True
  then obtain ns where "map_of adj u = Some ns" using map_of_key by blast
  with True show ?thesis
    by (cases "w = u") (simp_all add: nbrs_def adj_get_def map_of_add_to set_set_add)
next
  case False
  then show ?thesis
    by (cases "w = u") (simp_all add: nbrs_def adj_get_def map_of_add_to map_of_not_key)
qed

lemma adj_add_key:
  "u \<in> keys adj \<Longrightarrow> adj_add adj u x = Inr (add_to adj u x)"
  using map_of_key [of u adj] by (auto simp: adj_add_def)

section \<open>What \<^verbatim>\<open>parse_input\<close> computes\<close>



lemma row_targets_Nil: "row_targets r [] n = {}"
  by (simp add: row_targets_def)

lemma row_targets_Cons:
  "row_targets r (key # ks) n = row_targets r [key] n \<union> row_targets r ks n"
  by (auto simp: row_targets_def)

lemma add_connection_ok:
  assumes "nid \<in> keys adj"
  shows "\<exists>adj'. add_connection r nid key adj = Inr adj' \<and> map fst adj' = map fst adj
     \<and> (\<forall>w. nbrs adj' w =
           (if w = nid then nbrs adj nid \<union> row_targets r [key] nid else nbrs adj w))"
proof (cases "field_target r key")
  case None
  then have "add_connection r nid key adj = Inr adj"
    by (auto simp: add_connection_def field_target_def split: option.splits)
  moreover from None have "row_targets r [key] nid = {}"
    by (simp add: row_targets_def)
  ultimately show ?thesis by simp
next
  case (Some t)
  show ?thesis
  proof (cases "t = nid")
    case True
    with Some have "add_connection r nid key adj = Inr adj"
      by (auto simp: add_connection_def field_target_def split: option.splits if_splits)
    moreover from Some True have "row_targets r [key] nid = {}"
      by (simp add: row_targets_def)
    ultimately show ?thesis by simp
  next
    case False
    with Some have "add_connection r nid key adj = adj_add adj nid t"
      by (auto simp: add_connection_def field_target_def split: option.splits if_splits)
    then have "add_connection r nid key adj = Inr (add_to adj nid t)"
      using assms by (simp add: adj_add_key)
    moreover from Some False have "row_targets r [key] nid = {t}"
      by (auto simp: row_targets_def)
    ultimately show ?thesis
      using assms by (simp add: map_fst_add_to nbrs_add_to)
  qed
qed

lemma add_connections_ok:
  "nid \<in> keys adj \<Longrightarrow>
   \<exists>adj'. add_connections r nid ks adj = Inr adj' \<and> map fst adj' = map fst adj
     \<and> (\<forall>w. nbrs adj' w =
           (if w = nid then nbrs adj nid \<union> row_targets r ks nid else nbrs adj w))"
proof (induction ks arbitrary: adj)
  case Nil
  then show ?case by (simp add: row_targets_Nil)
next
  case (Cons key ks)
  from add_connection_ok [OF Cons.prems, of r key]
  obtain a1 where a1: "add_connection r nid key adj = Inr a1" "map fst a1 = map fst adj"
    "\<And>w. nbrs a1 w =
        (if w = nid then nbrs adj nid \<union> row_targets r [key] nid else nbrs adj w)"
    by blast
  from a1(2) Cons.prems have "nid \<in> keys a1"
    by (metis keys_def set_map)
  from Cons.IH [OF this]
  obtain a2 where a2: "add_connections r nid ks a1 = Inr a2" "map fst a2 = map fst a1"
    "\<And>w. nbrs a2 w =
        (if w = nid then nbrs a1 nid \<union> row_targets r ks nid else nbrs a1 w)"
    by blast
  have "add_connections r nid (key # ks) adj = Inr a2"
    using a1(1) a2(1) by (simp add: raising_def)
  moreover have "map fst a2 = map fst adj" using a1(2) a2(2) by simp
  moreover have "\<forall>w. nbrs a2 w =
      (if w = nid then nbrs adj nid \<union> row_targets r (key # ks) nid else nbrs adj w)"
    using a1(3) a2(3) row_targets_Cons [of r key ks nid] by auto
  ultimately show ?case by blast
qed

lemma parse_row_bad: "\<not> row_ok r \<Longrightarrow> \<exists>e. parse_row r st = Inl e"
  by (auto simp: row_ok_def row_id_def has_columns_def parse_row_def raising_def
      row_field_def to_int_def split: option.splits sum.splits)

lemma parse_row_ok:
  assumes "row_ok r"
  shows "\<exists>n adj'. row_id r = Some n
     \<and> parse_row r st = Inr (fst st @ [row_node r], adj')
     \<and> map fst adj' = map fst (setdefault (snd st) n)
     \<and> (\<forall>w. nbrs adj' w =
           (if w = n then nbrs (snd st) n \<union> row_targets r connection_keys n
            else nbrs (snd st) w))"
proof -
  from assms obtain n where n: "row_id r = Some n" by (auto simp: row_ok_def)
  then obtain s where s: "r ''id'' = Some (Some s)" "py_int s = Some n"
    by (auto simp: row_id_def split: option.splits)
  from assms obtain nm gr un co where f: "r ''nodeName'' = Some nm" "r ''group'' = Some gr"
    "r ''unit'' = Some un" "r ''contact'' = Some co"
    by (auto simp: row_ok_def has_columns_def)
  have "n \<in> keys (setdefault (snd st) n)" by (simp add: keys_setdefault)
  from add_connections_ok [OF this, of r connection_keys]
  obtain a where a: "add_connections r n connection_keys (setdefault (snd st) n) = Inr a"
    "map fst a = map fst (setdefault (snd st) n)"
    "\<And>w. nbrs a w =
        (if w = n then nbrs (setdefault (snd st) n) n \<union> row_targets r connection_keys n
         else nbrs (setdefault (snd st) n) w)"
    by blast
  have "parse_row r st = Inr (fst st @ [row_node r], a)"
    using s f a(1) n
    by (simp add: parse_row_def raising_def row_field_def to_int_def row_node_def)
  with n a(2) a(3) show ?thesis by (simp add: nbrs_setdefault)
qed



lemma refs_Cons:
  "refs (r # rs) u v \<longleftrightarrow>
     (row_id r = Some u \<and> v \<in> row_targets r connection_keys u) \<or> refs rs u v"
  by (auto simp: refs_def)

lemma parse_rows_bad:
  "\<exists>r \<in> set rows. \<not> row_ok r \<Longrightarrow> \<exists>e. parse_rows rows st = Inl e"
proof (induction rows arbitrary: st)
  case Nil
  then show ?case by simp
next
  case (Cons r rs)
  show ?case
  proof (cases "row_ok r")
    case False
    from parse_row_bad [OF this, of st] obtain e where "parse_row r st = Inl e" by blast
    then show ?thesis by (simp add: raising_def)
  next
    case True
    with Cons.prems have bad: "\<exists>r \<in> set rs. \<not> row_ok r" by auto
    from parse_row_ok [OF True, of st] obtain st' where "parse_row r st = Inr st'" by blast
    with Cons.IH [OF bad, of st'] show ?thesis
      by (simp add: raising_def)
  qed
qed

lemma parse_rows_ok:
  "\<forall>r \<in> set rows. row_ok r \<Longrightarrow>
   \<exists>adj'. parse_rows rows st = Inr (fst st @ map row_node rows, adj')
     \<and> keys adj' = keys (snd st) \<union> ids rows
     \<and> (\<forall>w. nbrs adj' w = nbrs (snd st) w \<union> {v. refs rows w v})
     \<and> (distinct (map fst (snd st)) \<longrightarrow> distinct (map fst adj'))"
proof (induction rows arbitrary: st)
  case Nil
  then show ?case by (cases st) (simp add: ids_def refs_def)
next
  case (Cons r rs)
  then have ok: "row_ok r" and oks: "\<forall>r \<in> set rs. row_ok r" by auto
  from parse_row_ok [OF ok, of st]
  obtain n a where a: "row_id r = Some n" "parse_row r st = Inr (fst st @ [row_node r], a)"
    "map fst a = map fst (setdefault (snd st) n)"
    "\<And>w. nbrs a w =
        (if w = n then nbrs (snd st) n \<union> row_targets r connection_keys n
         else nbrs (snd st) w)"
    by blast
  from Cons.IH [OF oks, of "(fst st @ [row_node r], a)"]
  obtain b where b: "parse_rows rs (fst st @ [row_node r], a)
       = Inr ((fst st @ [row_node r]) @ map row_node rs, b)"
    "keys b = keys a \<union> ids rs"
    "\<And>w. nbrs b w = nbrs a w \<union> {v. refs rs w v}"
    "distinct (map fst a) \<longrightarrow> distinct (map fst b)"
    by auto
  have ka: "keys a = insert n (keys (snd st))"
    using a(3) keys_setdefault [of "snd st" n] by (metis keys_def set_map)
  have 1: "parse_rows (r # rs) st = Inr (fst st @ map row_node (r # rs), b)"
    using a(2) b(1) by (simp add: raising_def)
  have 2: "keys b = keys (snd st) \<union> ids (r # rs)"
    using b(2) ka a(1) by (auto simp: ids_def)
  have 3: "\<forall>w. nbrs b w = nbrs (snd st) w \<union> {v. refs (r # rs) w v}"
    using b(3) a(4) a(1) by (auto simp: refs_Cons)
  have 4: "distinct (map fst (snd st)) \<longrightarrow> distinct (map fst b)"
    using b(4) a(3) distinct_setdefault [of "snd st" n] by simp
  from 1 2 3 4 show ?case by blast
qed

subsection \<open>The symmetry pass\<close>

lemma sym_inner_facts:
  "keys (sym_inner u vs adj) = keys adj \<union> set vs
   \<and> (\<forall>w. nbrs (sym_inner u vs adj) w =
          (if w \<in> set vs then insert u (nbrs adj w) else nbrs adj w))
   \<and> (distinct (map fst adj) \<longrightarrow> distinct (map fst (sym_inner u vs adj)))"
proof (induction vs arbitrary: adj)
  case Nil
  then show ?case by simp
next
  case (Cons v vs)
  let ?a = "add_to (setdefault adj v) v u"
  have k: "keys ?a = insert v (keys adj)"
    by (simp add: keys_add_to keys_setdefault)
  have n: "\<And>w. nbrs ?a w = (if w = v then insert u (nbrs adj v) else nbrs adj w)"
    by (simp add: nbrs_add_to keys_setdefault nbrs_setdefault)
  have d: "distinct (map fst adj) \<longrightarrow> distinct (map fst ?a)"
    by (simp add: map_fst_add_to distinct_setdefault)
  from Cons.IH [of ?a] k n d show ?case by auto
qed



lemma symmetrize_inv:
  assumes "\<forall>w. nbrs A0 w \<subseteq> nbrs A w \<and> nbrs A w \<subseteq> sym_closure A0 w"
    and "keys A0 \<subseteq> keys A" and "keys A \<subseteq> keys A0 \<union> {v. \<exists>u. v \<in> nbrs A0 u}"
    and "distinct (map fst A)"
  shows "(\<forall>w. nbrs A w \<subseteq> nbrs (symmetrize us A) w
            \<and> nbrs (symmetrize us A) w \<subseteq> sym_closure A0 w)
     \<and> (\<forall>u \<in> set us. \<forall>v \<in> nbrs A0 u. u \<in> nbrs (symmetrize us A) v
            \<and> v \<in> keys (symmetrize us A))
     \<and> keys A \<subseteq> keys (symmetrize us A)
     \<and> keys (symmetrize us A) \<subseteq> keys A0 \<union> {v. \<exists>u. v \<in> nbrs A0 u}
     \<and> distinct (map fst (symmetrize us A))"
  using assms
proof (induction us arbitrary: A)
  case Nil
  then show ?case by simp
next
  case (Cons u us)
  let ?B = "sym_inner u (adj_get A u) A"
  have kB: "keys ?B = keys A \<union> nbrs A u"
    and nB: "\<And>w. nbrs ?B w = (if w \<in> nbrs A u then insert u (nbrs A w) else nbrs A w)"
    and dB: "distinct (map fst ?B)"
    using sym_inner_facts [of u "adj_get A u" A] Cons.prems(4)
    by (simp_all add: nbrs_def)
  have sub: "\<And>w. nbrs A w \<subseteq> nbrs ?B w" using nB by auto
  have 1: "\<forall>w. nbrs A0 w \<subseteq> nbrs ?B w \<and> nbrs ?B w \<subseteq> sym_closure A0 w"
  proof
    fix w
    have "nbrs A0 w \<subseteq> nbrs ?B w" using Cons.prems(1) sub by blast
    moreover have "nbrs ?B w \<subseteq> sym_closure A0 w"
    proof
      fix x assume x: "x \<in> nbrs ?B w"
      show "x \<in> sym_closure A0 w"
      proof (cases "x \<in> nbrs A w")
        case True
        with Cons.prems(1) show ?thesis by blast
      next
        case False
        with x nB [of w] have "w \<in> nbrs A u" "x = u"
          by (auto split: if_splits)
        with Cons.prems(1) have "w \<in> sym_closure A0 u" by blast
        with \<open>x = u\<close> show ?thesis by (auto simp: sym_closure_def)
      qed
    qed
    ultimately show "nbrs A0 w \<subseteq> nbrs ?B w \<and> nbrs ?B w \<subseteq> sym_closure A0 w" ..
  qed
  have 2: "keys A0 \<subseteq> keys ?B" using kB Cons.prems(2) by auto
  have 3: "keys ?B \<subseteq> keys A0 \<union> {v. \<exists>u. v \<in> nbrs A0 u}"
  proof
    fix x assume "x \<in> keys ?B"
    with kB have "x \<in> keys A \<or> x \<in> nbrs A u" by auto
    then show "x \<in> keys A0 \<union> {v. \<exists>u. v \<in> nbrs A0 u}"
    proof
      assume "x \<in> keys A" with Cons.prems(3) show ?thesis by blast
    next
      assume "x \<in> nbrs A u"
      with Cons.prems(1) have "x \<in> sym_closure A0 u" by blast
      then have "x \<in> nbrs A0 u \<or> u \<in> nbrs A0 x" by (auto simp: sym_closure_def)
      then show ?thesis using nbrs_not_key [of x A0] by auto
    qed
  qed
  let ?S = "symmetrize us ?B"
  have S: "symmetrize (u # us) A = ?S" by simp
  from Cons.IH [OF 1 2 3 dB]
  have IH1: "\<And>w. nbrs ?B w \<subseteq> nbrs ?S w" "\<And>w. nbrs ?S w \<subseteq> sym_closure A0 w"
    and IH2: "\<And>x v. x \<in> set us \<Longrightarrow> v \<in> nbrs A0 x \<Longrightarrow> x \<in> nbrs ?S v \<and> v \<in> keys ?S"
    and IH3: "keys ?B \<subseteq> keys ?S" "keys ?S \<subseteq> keys A0 \<union> {v. \<exists>u. v \<in> nbrs A0 u}"
      "distinct (map fst ?S)"
    by blast+
  have a: "\<forall>w. nbrs A w \<subseteq> nbrs ?S w \<and> nbrs ?S w \<subseteq> sym_closure A0 w"
    using IH1 sub by blast
  have b: "\<forall>x \<in> set (u # us). \<forall>v \<in> nbrs A0 x. x \<in> nbrs ?S v \<and> v \<in> keys ?S"
  proof (intro ballI)
    fix x v assume x: "x \<in> set (u # us)" and v: "v \<in> nbrs A0 x"
    show "x \<in> nbrs ?S v \<and> v \<in> keys ?S"
    proof (cases "x = u")
      case True
      with v Cons.prems(1) have "v \<in> nbrs A u" by blast
      then have "u \<in> nbrs ?B v" "v \<in> keys ?B" using nB [of v] kB by auto
      with IH1(1) IH3(1) True show ?thesis by blast
    next
      case False
      with x have "x \<in> set us" by simp
      with IH2 v show ?thesis by blast
    qed
  qed
  have c: "keys A \<subseteq> keys ?S" using IH3(1) kB by blast
  from a b c IH3 show ?case unfolding S by blast
qed

lemma symmetrize_all:
  assumes "distinct (map fst A)"
  shows "keys (symmetrize (map fst A) A) = keys A \<union> {v. \<exists>u. v \<in> nbrs A u}
     \<and> (\<forall>w. nbrs (symmetrize (map fst A) A) w = sym_closure A w)
     \<and> distinct (map fst (symmetrize (map fst A) A))"
proof -
  let ?R = "symmetrize (map fst A) A"
  have inv: "(\<forall>w. nbrs A w \<subseteq> nbrs ?R w \<and> nbrs ?R w \<subseteq> sym_closure A w)"
    "\<forall>u \<in> set (map fst A). \<forall>v \<in> nbrs A u. u \<in> nbrs ?R v \<and> v \<in> keys ?R"
    "keys A \<subseteq> keys ?R" "keys ?R \<subseteq> keys A \<union> {v. \<exists>u. v \<in> nbrs A u}"
    "distinct (map fst ?R)"
    using symmetrize_inv [of A A "map fst A"] assms
    by (simp_all add: sym_closure_def subset_iff)
  have key: "\<And>u v. v \<in> nbrs A u \<Longrightarrow> u \<in> set (map fst A)"
    using nbrs_not_key [of _ A] by (fastforce simp: keys_def)
  have "\<And>w. sym_closure A w \<subseteq> nbrs ?R w"
  proof
    fix w x assume "x \<in> sym_closure A w"
    then have "x \<in> nbrs A w \<or> w \<in> nbrs A x" by (auto simp: sym_closure_def)
    then show "x \<in> nbrs ?R w"
    proof
      assume "x \<in> nbrs A w" with inv(1) show ?thesis by blast
    next
      assume "w \<in> nbrs A x"
      with key [of w x] inv(2) show ?thesis by blast
    qed
  qed
  with inv(1) have n: "\<forall>w. nbrs ?R w = sym_closure A w" by blast
  have "{v. \<exists>u. v \<in> nbrs A u} \<subseteq> keys ?R"
    using key inv(2) by blast
  with inv(3) inv(4) have "keys ?R = keys A \<union> {v. \<exists>u. v \<in> nbrs A u}" by blast
  with n inv(5) show ?thesis by blast
qed

subsection \<open>The result of \<^verbatim>\<open>parse_input\<close>\<close>

lemma parse_input_bad:
  "\<exists>r \<in> set rows. \<not> row_ok r \<Longrightarrow> \<exists>e. parse_input rows = Inl e"
  using parse_rows_bad [of rows "([], [])"] by (auto simp: parse_input_def)

lemma parse_input_ok:
  assumes "\<forall>r \<in> set rows. row_ok r"
  shows "\<exists>adj. parse_input rows = Inr (map row_node rows, adj)
     \<and> distinct (map fst adj)
     \<and> keys adj = ids rows \<union> {v. \<exists>u. refs rows u v}
     \<and> (\<forall>u v. v \<in> nbrs adj u \<longleftrightarrow> refs rows u v \<or> refs rows v u)"
proof -
  from parse_rows_ok [OF assms, of "([], [])"]
  obtain a where a: "parse_rows rows ([], []) = Inr (map row_node rows, a)"
    "keys a = ids rows" "\<And>w. nbrs a w = {v. refs rows w v}" "distinct (map fst a)"
    by (auto simp: keys_def nbrs_def adj_get_def)
  let ?R = "symmetrize (map fst a) a"
  have "parse_input rows = Inr (map row_node rows, ?R)"
    using a(1) by (simp add: parse_input_def)
  moreover have "distinct (map fst ?R)" using symmetrize_all [OF a(4)] by blast
  moreover have "keys ?R = ids rows \<union> {v. \<exists>u. refs rows u v}"
    using symmetrize_all [OF a(4)] a(2) a(3) by auto
  moreover have "\<forall>u v. v \<in> nbrs ?R u \<longleftrightarrow> refs rows u v \<or> refs rows v u"
    using symmetrize_all [OF a(4)] a(3) by (auto simp: sym_closure_def)
  ultimately show ?thesis by blast
qed

lemma refs_irrefl: "\<not> refs rows u u"
  by (auto simp: refs_def row_targets_def)

lemma parse_input_Inr_ok:
  assumes "parse_input rows = Inr res"
  shows "\<forall>r \<in> set rows. row_ok r"
proof (rule ccontr)
  assume "\<not> (\<forall>r \<in> set rows. row_ok r)"
  then have "\<exists>r \<in> set rows. \<not> row_ok r" by blast
  from parse_input_bad [OF this] assms show False by auto
qed

lemma parse_example: "parse_input example_rows = Inr (example_nodes, example_adj)"
  unfolding example_rows_def example_nodes_def example_adj_def by code_simp

lemma example_rows_ok: "\<forall>r \<in> set example_rows. row_ok r"
  unfolding example_rows_def by code_simp

lemma example_ids: "7 \<notin> ids example_rows"
  unfolding example_rows_def ids_def by code_simp

lemma example_refs: "refs example_rows 1 7" "\<not> refs example_rows 7 1"
  unfolding example_rows_def refs_def row_targets_def by code_simp+

section \<open>Theorems about \<^verbatim>\<open>parse_input\<close>\<close>

text \<open>
  Claim C2. Whenever \<^verbatim>\<open>parse_input\<close> returns, the adjacency map it returns is
  symmetric and has no self-loop: \<open>v\<close> is a neighbour of \<open>u\<close> exactly when \<open>u\<close> is a
  neighbour of \<open>v\<close>, also when only one of the two rows names the other, and no
  identifier is its own neighbour.
\<close>

theorem parse_input_symmetric:
  assumes "parse_input rows = Inr (nodes, adj)"
  shows "symmetric adj \<and> loop_free adj
     \<and> (\<forall>u v. refs rows u v \<longrightarrow> v \<in> nbrs adj u \<and> u \<in> nbrs adj v)"
proof -
  from parse_input_ok [OF parse_input_Inr_ok [OF assms]] assms
  have n: "\<And>u v. v \<in> nbrs adj u \<longleftrightarrow> refs rows u v \<or> refs rows v u" by auto
  have "symmetric adj" unfolding symmetric_def using n by blast
  moreover have "loop_free adj" unfolding loop_free_def using n refs_irrefl by blast
  ultimately show ?thesis using n by blast
qed

theorem parse_input_symmetric_witness:
  "parse_input example_rows = Inr (example_nodes, example_adj)
     \<and> symmetric example_adj \<and> loop_free example_adj
     \<and> refs example_rows 1 7 \<and> \<not> refs example_rows 7 1
     \<and> 7 \<in> nbrs example_adj 1 \<and> 1 \<in> nbrs example_adj 7"
  using parse_example parse_input_symmetric [OF parse_example] example_refs by blast

lemma bad_rows_columns: "\<forall>r \<in> set bad_rows. has_columns r"
  unfolding bad_rows_def example_rows_def by code_simp

lemma bad_rows_raise: "parse_input bad_rows = Inl ValueError"
  unfolding bad_rows_def example_rows_def by code_simp

lemma filter_key_once:
  "distinct (map fst xs) \<Longrightarrow> n \<in> fst ` set xs \<Longrightarrow> length (filter (\<lambda>e. fst e = n) xs) = 1"
proof (induction xs)
  case Nil
  then show ?case by simp
next
  case (Cons x xs)
  show ?case
  proof (cases "fst x = n")
    case True
    with Cons.prems have "n \<notin> fst ` set xs" by auto
    then have "filter (\<lambda>e. fst e = n) xs = []" by (auto simp: filter_empty_conv)
    with True show ?thesis by simp
  next
    case False
    with Cons show ?thesis by auto
  qed
qed

lemma bad_field_target: "bad_field r key \<Longrightarrow> field_target r key = None"
  by (auto simp: bad_field_def field_target_def split: option.splits)

lemma no_group_ids: "map row_id no_group_rows = [Some 1]"
  unfolding no_group_rows_def by code_simp

lemma no_group_raise: "parse_input no_group_rows = Inl KeyError"
  unfolding no_group_rows_def by code_simp

text \<open>
  Claim C3, as the script has it. \<^verbatim>\<open>parse_input\<close> raises exactly when the identifier
  field of some row is not a parseable integer (the field is absent, \<^verbatim>\<open>None\<close> or not a
  number) or some row lacks one of the columns \<^verbatim>\<open>nodeName\<close>, \<^verbatim>\<open>group\<close>, \<^verbatim>\<open>unit\<close> and
  \<^verbatim>\<open>contact\<close>. When it returns, the node list has one entry for each row, in order, with
  the identifier of that row: no row is skipped.
\<close>

theorem parse_input_raises_iff:
  "((\<exists>e. parse_input rows = Inl e)
       \<longleftrightarrow> (\<exists>r \<in> set rows. row_id r = None \<or> \<not> has_columns r))
     \<and> (\<forall>nodes adj. parse_input rows = Inr (nodes, adj) \<longrightarrow>
           map (\<lambda>n. Some (node_id n)) nodes = map row_id rows)"
proof (cases "\<exists>r \<in> set rows. \<not> row_ok r")
  case True
  from parse_input_bad [OF True] True show ?thesis by (auto simp: row_ok_def)
next
  case False
  then have ok: "\<forall>r \<in> set rows. row_ok r" by simp
  from parse_input_ok [OF ok] obtain a where a: "parse_input rows = Inr (map row_node rows, a)"
    by blast
  have "map (\<lambda>n. Some (node_id n)) (map row_node rows) = map row_id rows"
    using ok by (auto simp: row_node_def row_ok_def)
  with a ok show ?thesis by (auto simp: row_ok_def)
qed

theorem parse_input_raises_iff_witness:
  "parse_input bad_rows = Inl ValueError
     \<and> (\<exists>r \<in> set bad_rows. row_id r = None)
     \<and> parse_input example_rows = Inr (example_nodes, example_adj)
     \<and> map (\<lambda>n. Some (node_id n)) example_nodes = map row_id example_rows"
proof -
  from parse_input_raises_iff [of bad_rows] bad_rows_raise bad_rows_columns
  have "\<exists>r \<in> set bad_rows. row_id r = None" by auto
  moreover from parse_input_raises_iff [of example_rows] parse_example
  have "map (\<lambda>n. Some (node_id n)) example_nodes = map row_id example_rows" by blast
  ultimately show ?thesis using bad_rows_raise parse_example by simp
qed

text \<open>
  The claim C3 as stated fails: the identifier of the only row of this file parses,
  and \<^verbatim>\<open>parse_input\<close> raises \<^verbatim>\<open>KeyError\<close>, because the file has no column \<^verbatim>\<open>group\<close>.
\<close>

theorem parse_input_raises_counterexample:
  "map row_id no_group_rows = [Some 1] \<and> parse_input no_group_rows = Inl KeyError"
  using no_group_ids no_group_raise by (rule conjI)

text \<open>
  Claim C4. Let every row be acceptable, and let a connection field of the row at
  position \<open>i\<close>, whose identifier is \<open>n\<close>, be empty, blank, absent or not a number. Then
  \<^verbatim>\<open>parse_input\<close> returns, the node list has the entry of that row at position \<open>i\<close>,
  every other connection field of the row that parses to a neighbour \<open>t \<noteq> n\<close> puts \<open>t\<close>
  among the neighbours of \<open>n\<close>, and the neighbours of \<open>n\<close> are only identifiers that a
  parseable field relates to \<open>n\<close>: the bad field adds nothing and removes nothing.
\<close>

theorem bad_neighbour_field_dropped:
  assumes "\<forall>r \<in> set rows. row_ok r" and "i < length rows" and "row_id (rows ! i) = Some n"
    and "key \<in> set connection_keys" and "bad_field (rows ! i) key"
  shows "\<exists>nodes adj. parse_input rows = Inr (nodes, adj)
     \<and> length nodes = length rows \<and> nodes ! i = row_node (rows ! i)
     \<and> node_id (nodes ! i) = n
     \<and> (\<forall>k \<in> set connection_keys. \<forall>t. field_target (rows ! i) k = Some t \<and> t \<noteq> n
           \<longrightarrow> k \<noteq> key \<and> t \<in> nbrs adj n \<and> n \<in> nbrs adj t)
     \<and> (\<forall>t \<in> nbrs adj n. refs rows n t \<or> refs rows t n)"
proof -
  from parse_input_ok [OF assms(1)]
  obtain a where a: "parse_input rows = Inr (map row_node rows, a)"
    "\<And>u v. v \<in> nbrs a u \<longleftrightarrow> refs rows u v \<or> refs rows v u"
    by blast
  have r: "rows ! i \<in> set rows" using assms(2) by simp
  have 1: "map row_node rows ! i = row_node (rows ! i)" using assms(2) by simp
  have 2: "node_id (row_node (rows ! i)) = n" using assms(3) by (simp add: row_node_def)
  have 3: "\<forall>k \<in> set connection_keys. \<forall>t. field_target (rows ! i) k = Some t \<and> t \<noteq> n
           \<longrightarrow> k \<noteq> key \<and> t \<in> nbrs a n \<and> n \<in> nbrs a t"
  proof (intro ballI allI impI)
    fix k t assume k: "k \<in> set connection_keys"
      and t: "field_target (rows ! i) k = Some t \<and> t \<noteq> n"
    then have "t \<in> row_targets (rows ! i) connection_keys n"
      by (auto simp: row_targets_def)
    with r assms(3) have "refs rows n t" by (auto simp: refs_def)
    moreover have "k \<noteq> key" using t bad_field_target [OF assms(5)] by auto
    ultimately show "k \<noteq> key \<and> t \<in> nbrs a n \<and> n \<in> nbrs a t" using a(2) by blast
  qed
  have 4: "\<forall>t \<in> nbrs a n. refs rows n t \<or> refs rows t n" using a(2) by blast
  have 0: "length (map row_node rows) = length rows" by simp
  show ?thesis
    by (intro exI conjI) (rule a(1), rule 0, rule 1, simp only: 1 2, rule 3, rule 4)
qed

theorem bad_neighbour_field_dropped_witness:
  "list_all row_ok example_rows \<and> (0::nat) < length example_rows
     \<and> row_id (example_rows ! 0) = Some 1
     \<and> ''connectionID2'' \<in> set connection_keys
     \<and> bad_field (example_rows ! 0) ''connectionID2''
     \<and> (\<exists>nodes adj. parse_input example_rows = Inr (nodes, adj)
          \<and> length nodes = length example_rows \<and> nodes ! 0 = row_node (example_rows ! 0)
          \<and> node_id (nodes ! 0) = 1
          \<and> (\<forall>k \<in> set connection_keys. \<forall>t. field_target (example_rows ! 0) k = Some t \<and> t \<noteq> 1
                \<longrightarrow> k \<noteq> ''connectionID2'' \<and> t \<in> nbrs adj 1 \<and> 1 \<in> nbrs adj t)
          \<and> (\<forall>t \<in> nbrs adj 1. refs example_rows 1 t \<or> refs example_rows t 1))"
proof -
  have 1: "(0::nat) < length example_rows" unfolding example_rows_def by simp
  have 2: "row_id (example_rows ! 0) = Some 1" unfolding example_rows_def by code_simp
  have 3: "''connectionID2'' \<in> set connection_keys" by code_simp
  have 4: "bad_field (example_rows ! 0) ''connectionID2''"
    unfolding example_rows_def by code_simp
  from bad_neighbour_field_dropped [OF example_rows_ok 1 2 3 4] example_rows_ok 1 2 3 4
  show ?thesis unfolding list_all_iff by blast
qed

text \<open>
  Claim C5. When \<^verbatim>\<open>parse_input\<close> returns, the keys of the adjacency map are the
  identifiers of the rows together with every identifier that a connection field
  names. An identifier \<open>v\<close> that a row \<open>u\<close> names is a key even if no row has \<open>v\<close> as
  its identifier, and \<open>u\<close> is among the neighbours of \<open>v\<close>.
\<close>

theorem parse_input_keys:
  assumes "parse_input rows = Inr (nodes, adj)"
  shows "keys adj = ids rows \<union> {v. \<exists>u. refs rows u v}
     \<and> (\<forall>u v. refs rows u v \<longrightarrow> v \<in> keys adj \<and> u \<in> nbrs adj v)"
proof -
  from parse_input_ok [OF parse_input_Inr_ok [OF assms]] assms
  have k: "keys adj = ids rows \<union> {v. \<exists>u. refs rows u v}"
    and n: "\<And>u v. v \<in> nbrs adj u \<longleftrightarrow> refs rows u v \<or> refs rows v u" by auto
  from k n show ?thesis by blast
qed

theorem parse_input_keys_witness:
  "parse_input example_rows = Inr (example_nodes, example_adj)
     \<and> keys example_adj = ids example_rows \<union> {v. \<exists>u. refs example_rows u v}
     \<and> refs example_rows 1 7 \<and> 7 \<notin> ids example_rows
     \<and> 7 \<in> keys example_adj \<and> 1 \<in> nbrs example_adj 7"
  using parse_example parse_input_keys [OF parse_example] example_refs(1) example_ids
  by blast

text \<open>
  Claim C10. Let every row be acceptable and let the rows at positions \<open>i < j\<close> carry
  the same identifier \<open>n\<close>. Then \<^verbatim>\<open>parse_input\<close> returns; the node list keeps both
  rows, at positions \<open>i\<close> and \<open>j\<close>; the adjacency map has exactly one entry with key
  \<open>n\<close>, and the neighbours of \<open>n\<close> include the neighbours named by both rows.
\<close>

theorem duplicate_identifier:
  assumes "\<forall>r \<in> set rows. row_ok r" and "i < j" and "j < length rows"
    and "row_id (rows ! i) = Some n" and "row_id (rows ! j) = Some n"
  shows "\<exists>nodes adj. parse_input rows = Inr (nodes, adj)
     \<and> length nodes = length rows
     \<and> nodes ! i = row_node (rows ! i) \<and> nodes ! j = row_node (rows ! j)
     \<and> node_id (nodes ! i) = n \<and> node_id (nodes ! j) = n
     \<and> length (filter (\<lambda>e. fst e = n) adj) = 1
     \<and> row_targets (rows ! i) connection_keys n \<union> row_targets (rows ! j) connection_keys n
          \<subseteq> nbrs adj n"
proof -
  from parse_input_ok [OF assms(1)]
  obtain a where a: "parse_input rows = Inr (map row_node rows, a)"
    "distinct (map fst a)" "keys a = ids rows \<union> {v. \<exists>u. refs rows u v}"
    "\<And>u v. v \<in> nbrs a u \<longleftrightarrow> refs rows u v \<or> refs rows v u"
    by blast
  have ri: "rows ! i \<in> set rows" and rj: "rows ! j \<in> set rows" using assms(2,3) by simp_all
  have 1: "map row_node rows ! i = row_node (rows ! i)"
    "map row_node rows ! j = row_node (rows ! j)" using assms(2,3) by simp_all
  have 2: "node_id (row_node (rows ! i)) = n" "node_id (row_node (rows ! j)) = n"
    using assms(4,5) by (simp_all add: row_node_def)
  have "n \<in> keys a" using a(3) ri assms(4) by (auto simp: ids_def)
  then have 3: "length (filter (\<lambda>e. fst e = n) a) = 1"
    using filter_key_once [OF a(2)] by (simp add: keys_def)
  have 4: "row_targets (rows ! i) connection_keys n \<union> row_targets (rows ! j) connection_keys n
          \<subseteq> nbrs a n"
    using a(4) ri rj assms(4,5) by (auto simp: refs_def)
  have 0: "length (map row_node rows) = length rows" by simp
  show ?thesis
    by (intro exI conjI)
      (rule a(1), rule 0, rule 1(1), rule 1(2), simp only: 1 2, simp only: 1 2, rule 3, rule 4)
qed

theorem duplicate_identifier_witness:
  "list_all row_ok example_rows \<and> (0::nat) < 2 \<and> 2 < length example_rows
     \<and> row_id (example_rows ! 0) = Some 1 \<and> row_id (example_rows ! 2) = Some 1
     \<and> (\<exists>nodes adj. parse_input example_rows = Inr (nodes, adj)
          \<and> length nodes = length example_rows
          \<and> nodes ! 0 = row_node (example_rows ! 0) \<and> nodes ! 2 = row_node (example_rows ! 2)
          \<and> node_id (nodes ! 0) = 1 \<and> node_id (nodes ! 2) = 1
          \<and> length (filter (\<lambda>e. fst e = 1) adj) = 1
          \<and> row_targets (example_rows ! 0) connection_keys 1
               \<union> row_targets (example_rows ! 2) connection_keys 1 \<subseteq> nbrs adj 1)"
proof -
  have 1: "(0::nat) < 2" by simp
  have 2: "2 < length example_rows" unfolding example_rows_def by simp
  have 3: "row_id (example_rows ! 0) = Some 1" unfolding example_rows_def by code_simp
  have 4: "row_id (example_rows ! 2) = Some 1" unfolding example_rows_def by code_simp
  from duplicate_identifier [OF example_rows_ok 1 2 3 4] example_rows_ok 1 2 3 4
  show ?thesis unfolding list_all_iff by blast
qed

section \<open>Theorems about the edge list\<close>

lemma edge_key_pair: "edge_key (u, v) = {u, v}"
  by (simp add: edge_key_def)

lemma edges_inner_ok: "edges_ok st \<Longrightarrow> edges_ok (edges_inner u vs st)"
proof (induction vs arbitrary: st)
  case Nil
  then show ?case by simp
next
  case (Cons v vs)
  show ?case
  proof (cases "{u, v} \<in> fst st")
    case True
    with Cons show ?thesis by simp
  next
    case False
    with Cons.prems have "edges_ok (insert {u, v} (fst st), snd st @ [(u, v)])"
      by (simp add: edges_ok_def edge_key_pair)
    from Cons.IH [OF this] False show ?thesis by simp
  qed
qed

lemma edges_inner_added:
  "fst (edges_inner u vs st) = fst st \<union> (\<lambda>v. {u, v}) ` set vs"
  by (induction vs arbitrary: st) auto

lemma edges_inner_subset:
  "set (snd (edges_inner u vs st)) \<subseteq> set (snd st) \<union> {u} \<times> set vs"
proof (induction vs arbitrary: st)
  case Nil
  then show ?case by simp
next
  case (Cons v vs)
  have a: "set (snd (edges_inner u vs st)) \<subseteq> set (snd st) \<union> {u} \<times> set vs"
    by (rule Cons.IH)
  have b: "set (snd (edges_inner u vs (insert {u, v} (fst st), snd st @ [(u, v)])))
      \<subseteq> set (snd st @ [(u, v)]) \<union> {u} \<times> set vs"
    using Cons.IH [of "(insert {u, v} (fst st), snd st @ [(u, v)])"] by simp
  show ?case
  proof (cases "{u, v} \<in> fst st")
    case True
    with a show ?thesis by auto
  next
    case False
    with b show ?thesis by auto
  qed
qed

lemma pairs_Cons: "pairs ((u, ns) # items) = {u} \<times> set ns \<union> pairs items"
  by (auto simp: pairs_def)

lemma edges_outer_ok: "edges_ok st \<Longrightarrow> edges_ok (edges_outer adj st)"
proof (induction adj arbitrary: st)
  case Nil
  then show ?case by simp
next
  case (Cons item items)
  obtain u ns where item: "item = (u, ns)" by (cases item)
  from Cons.IH [OF edges_inner_ok [OF Cons.prems, of u ns]] show ?case
    by (simp add: item)
qed

lemma edges_outer_added:
  "fst (edges_outer adj st) = fst st \<union> edge_key ` pairs adj"
proof (induction adj arbitrary: st)
  case Nil
  then show ?case by (simp add: pairs_def)
next
  case (Cons item items)
  obtain u ns where item: "item = (u, ns)" by (cases item)
  have k: "edge_key ` ({u} \<times> set ns) = (\<lambda>v. {u, v}) ` set ns"
    by (auto simp: edge_key_def image_iff)
  have "fst (edges_outer (item # items) st)
      = (fst st \<union> (\<lambda>v. {u, v}) ` set ns) \<union> edge_key ` pairs items"
    by (simp add: item Cons.IH edges_inner_added)
  also have "\<dots> = fst st \<union> edge_key ` pairs (item # items)"
    by (simp add: item pairs_Cons image_Un k Un_assoc)
  finally show ?case .
qed

lemma edges_outer_subset:
  "set (snd (edges_outer adj st)) \<subseteq> set (snd st) \<union> pairs adj"
proof (induction adj arbitrary: st)
  case Nil
  then show ?case by simp
next
  case (Cons item items)
  obtain u ns where item: "item = (u, ns)" by (cases item)
  have "set (snd (edges_outer (item # items) st))
      \<subseteq> set (snd (edges_inner u ns st)) \<union> pairs items"
    using Cons.IH [of "edges_inner u ns st"] by (simp add: item)
  with edges_inner_subset [of u ns st] show ?case
    unfolding item pairs_Cons by blast
qed

lemma pairs_nbrs:
  assumes "distinct (map fst adj)"
  shows "pairs adj = {(u, v). v \<in> nbrs adj u}"
proof -
  have m: "\<And>u ns. (u, ns) \<in> set adj \<longleftrightarrow> map_of adj u = Some ns"
    using assms by (metis map_of_SomeD map_of_is_SomeI)
  show ?thesis
  proof (intro set_eqI iffI)
    fix e assume "e \<in> pairs adj"
    then obtain u v ns where "e = (u, v)" "(u, ns) \<in> set adj" "v \<in> set ns"
      by (auto simp: pairs_def)
    with m show "e \<in> {(u, v). v \<in> nbrs adj u}"
      by (simp add: nbrs_def adj_get_def)
  next
    fix e assume "e \<in> {(u, v). v \<in> nbrs adj u}"
    then obtain u v where e: "e = (u, v)" "v \<in> nbrs adj u" by auto
    then obtain ns where "map_of adj u = Some ns" "v \<in> set ns"
      by (cases "map_of adj u") (auto simp: nbrs_def adj_get_def)
    with m e show "e \<in> pairs adj" by (auto simp: pairs_def)
  qed
qed

lemma vis_edges_distinct: "distinct (map edge_key (vis_edges adj))"
  using edges_outer_ok [of "({}, [])" adj] by (simp add: edges_ok_def vis_edges_def)

lemma vis_edges_subset: "set (vis_edges adj) \<subseteq> pairs adj"
  using edges_outer_subset [of adj "({}, [])"] by (simp add: vis_edges_def)

lemma vis_edges_keys: "edge_key ` set (vis_edges adj) = edge_key ` pairs adj"
proof -
  have "edges_ok (edges_outer adj ({}, []))"
    by (rule edges_outer_ok) (simp add: edges_ok_def)
  then have "edge_key ` set (vis_edges adj) = fst (edges_outer adj ({}, []))"
    by (simp add: edges_ok_def vis_edges_def)
  then show ?thesis by (simp add: edges_outer_added)
qed

lemma undirected_edges_pairs:
  assumes "distinct (map fst adj)"
  shows "undirected_edges adj = edge_key ` pairs adj"
proof -
  have "undirected_edges adj = edge_key ` {(u, v). v \<in> nbrs adj u}"
    unfolding undirected_edges_def edge_key_def image_def by (rule set_eqI) force
  then show ?thesis by (simp add: pairs_nbrs [OF assms])
qed

text \<open>
  Claim C8. For an adjacency map (a dictionary: no key twice), the edge list of
  \<^verbatim>\<open>build_html\<close> holds every undirected edge \<open>{u, v}\<close> with \<open>v\<close> in \<^verbatim>\<open>adj[u]\<close> exactly
  once: the keys \<open>{from, to}\<close> of its records are pairwise different, they are exactly
  the undirected edges of the map, and the number of records is the number of these
  edges. Every record \<open>(u, v)\<close> has \<open>v\<close> in \<^verbatim>\<open>adj[u]\<close>. This holds whether or not the map
  is symmetric.
\<close>

theorem vis_edges_once:
  assumes "distinct (map fst adj)"
  shows "length (vis_edges adj) = card (undirected_edges adj)
     \<and> distinct (map edge_key (vis_edges adj))
     \<and> edge_key ` set (vis_edges adj) = undirected_edges adj
     \<and> set (vis_edges adj) \<subseteq> {(u, v). v \<in> nbrs adj u}"
proof -
  have k: "edge_key ` set (vis_edges adj) = undirected_edges adj"
    by (simp add: vis_edges_keys undirected_edges_pairs [OF assms])
  have "card (edge_key ` set (vis_edges adj)) = length (vis_edges adj)"
    using distinct_card [OF vis_edges_distinct [of adj]] by simp
  then have c: "length (vis_edges adj) = card (undirected_edges adj)"
    by (simp add: k)
  have s: "set (vis_edges adj) \<subseteq> {(u, v). v \<in> nbrs adj u}"
    using vis_edges_subset [of adj] by (simp add: pairs_nbrs [OF assms])
  show ?thesis
    by (intro conjI) (rule c, rule vis_edges_distinct, rule k, rule s)
qed

theorem vis_edges_once_witness:
  "distinct (map fst path5)
     \<and> vis_edges path5 = [(1, 2), (2, 3), (3, 4), (4, 5)]
     \<and> length (vis_edges path5) = card (undirected_edges path5)
     \<and> edge_key ` set (vis_edges path5) = undirected_edges path5"
proof -
  have d: "distinct (map fst path5)" unfolding path5_def by simp
  have v: "vis_edges path5 = [(1, 2), (2, 3), (3, 4), (4, 5)]"
    unfolding path5_def by code_simp
  have t: "length (vis_edges path5) = card (undirected_edges path5)"
    "edge_key ` set (vis_edges path5) = undirected_edges path5"
    using vis_edges_once [OF d] by simp_all
  show ?thesis by (intro conjI) (rule d, rule v, rule t(1), rule t(2))
qed

section \<open>Paths\<close>

lemma symmetricD: "symmetric adj \<Longrightarrow> v \<in> nbrs adj u \<Longrightarrow> u \<in> nbrs adj v"
  by (simp add: symmetric_def)

lemma loop_freeD: "loop_free adj \<Longrightarrow> v \<in> nbrs adj u \<Longrightarrow> v \<noteq> u"
  by (auto simp: loop_free_def)

lemma nbr_is_key: "symmetric adj \<Longrightarrow> v \<in> nbrs adj u \<Longrightarrow> v \<in> keys adj"
  using nbrs_not_key [of v adj] symmetricD [of adj v u] by auto

lemma has_nbr_is_key: "v \<in> nbrs adj u \<Longrightarrow> u \<in> keys adj"
  using nbrs_not_key [of u adj] by auto

lemma avoiding_mono: "X \<subseteq> Y \<Longrightarrow> avoiding adj Y \<subseteq> avoiding adj X"
  by (auto simp: avoiding_def)

lemma avoiding_star_mono:
  "X \<subseteq> Y \<Longrightarrow> (a, b) \<in> (avoiding adj Y)\<^sup>* \<Longrightarrow> (a, b) \<in> (avoiding adj X)\<^sup>*"
  using rtrancl_mono [OF avoiding_mono] by blast

lemma avoiding_edges: "avoiding adj X \<subseteq> edges adj"
  by (auto simp: avoiding_def edges_def)

lemma avoiding_star_edges: "(a, b) \<in> (avoiding adj X)\<^sup>* \<Longrightarrow> (a, b) \<in> (edges adj)\<^sup>*"
  using rtrancl_mono [OF avoiding_edges] by blast

lemma avoiding_edge:
  "b \<in> nbrs adj a \<Longrightarrow> a \<notin> X \<Longrightarrow> b \<notin> X \<Longrightarrow> (a, b) \<in> (avoiding adj X)\<^sup>*"
  by (simp add: avoiding_def r_into_rtrancl)

lemma sym_avoiding: "symmetric adj \<Longrightarrow> sym (avoiding adj X)"
  by (auto simp: sym_def avoiding_def symmetric_def)

lemma sym_edges: "symmetric adj \<Longrightarrow> sym (edges adj)"
  by (auto simp: sym_def edges_def symmetric_def)

lemma avoiding_star_sym:
  "symmetric adj \<Longrightarrow> (a, b) \<in> (avoiding adj X)\<^sup>* \<Longrightarrow> (b, a) \<in> (avoiding adj X)\<^sup>*"
  using sym_rtrancl [OF sym_avoiding, of adj X] by (simp add: sym_def)

lemma edges_star_sym:
  "symmetric adj \<Longrightarrow> (a, b) \<in> (edges adj)\<^sup>* \<Longrightarrow> (b, a) \<in> (edges adj)\<^sup>*"
  using sym_rtrancl [OF sym_edges, of adj] by (simp add: sym_def)

text \<open>A set that no edge outside \<open>X\<close> leaves keeps every path outside \<open>X\<close> that starts in it.\<close>

lemma closed_set_path:
  assumes "(a, b) \<in> (avoiding adj X)\<^sup>*" and "a \<in> K"
    and "\<And>y w. y \<in> K \<Longrightarrow> w \<in> nbrs adj y \<Longrightarrow> w \<notin> X \<Longrightarrow> w \<in> K"
  shows "b \<in> K"
  using assms(1)
proof (induction rule: rtrancl_induct)
  case base
  show ?case by (rule assms(2))
next
  case (step y z)
  then show ?case using assms(3) [of y z] by (auto simp: avoiding_def)
qed

text \<open>A path from \<open>u\<close> to another node leaves \<open>u\<close> for the last time through a
  neighbour, and goes on without \<open>u\<close>.\<close>

lemma last_exit:
  assumes "(u, a) \<in> (edges adj)\<^sup>*" and "a \<noteq> u"
  shows "\<exists>n \<in> nbrs adj u. n \<noteq> u \<and> (n, a) \<in> (avoiding adj {u})\<^sup>*"
  using assms
proof (induction rule: rtrancl_induct)
  case base
  then show ?case by simp
next
  case (step y z)
  from step.hyps(2) have yz: "z \<in> nbrs adj y" by (simp add: edges_def)
  show ?case
  proof (cases "y = u")
    case True
    with yz step.prems show ?thesis by auto
  next
    case False
    from step.IH [OF False] obtain n where n: "n \<in> nbrs adj u" "n \<noteq> u"
      "(n, y) \<in> (avoiding adj {u})\<^sup>*" by blast
    have "(y, z) \<in> avoiding adj {u}" using yz False step.prems by (simp add: avoiding_def)
    with n(3) have "(n, z) \<in> (avoiding adj {u})\<^sup>*" by (rule rtrancl_into_rtrancl)
    with n(1,2) show ?thesis by blast
  qed
qed

text \<open>A path that meets no node of \<open>X\<close> is a path outside \<open>X\<close>.\<close>

lemma path_outside:
  assumes "(a, b) \<in> (edges adj)\<^sup>*" and "\<And>x. (a, x) \<in> (edges adj)\<^sup>* \<Longrightarrow> x \<notin> X"
  shows "(a, b) \<in> (avoiding adj X)\<^sup>*"
  using assms(1)
proof (induction rule: rtrancl_induct)
  case base
  show ?case by simp
next
  case (step y z)
  have "y \<notin> X" using assms(2) [OF step.hyps(1)] .
  moreover have "z \<notin> X"
    using assms(2) [OF rtrancl_into_rtrancl [OF step.hyps(1) step.hyps(2)]] .
  ultimately have "(y, z) \<in> avoiding adj X"
    using step.hyps(2) by (simp add: avoiding_def edges_def)
  with step.IH show ?case by (rule rtrancl_into_rtrancl)
qed

section \<open>Removing a node\<close>

lemma map_of_remove_node:
  "map_of (remove_node adj u) w =
     (if w = u then None else map_option (removeAll u) (map_of adj w))"
  by (induction adj) (auto simp: remove_node_def)

lemma nbrs_remove_node:
  "nbrs (remove_node adj u) w = (if w = u then {} else nbrs adj w - {u})"
  by (cases "map_of adj w") (auto simp: nbrs_def adj_get_def map_of_remove_node)

lemma keys_remove_node: "keys (remove_node adj u) = keys adj - {u}"
  by (force simp: keys_def remove_node_def)

lemma edges_remove_node: "edges (remove_node adj u) = avoiding adj {u}"
  by (auto simp: edges_def avoiding_def nbrs_remove_node split: if_splits)

section \<open>Components\<close>

lemma component_self: "v \<in> component adj v"
  by (simp add: component_def)

lemma component_eq:
  assumes "symmetric adj" and "w \<in> component adj v"
  shows "component adj w = component adj v"
proof -
  from assms(2) have vw: "(v, w) \<in> (edges adj)\<^sup>*" by (simp add: component_def)
  then have wv: "(w, v) \<in> (edges adj)\<^sup>*" by (rule edges_star_sym [OF assms(1)])
  show ?thesis
    unfolding component_def using vw wv by (auto intro: rtrancl_trans)
qed

lemma symmetric_remove_node: "symmetric adj \<Longrightarrow> symmetric (remove_node adj u)"
  by (auto simp: symmetric_def nbrs_remove_node)

lemma component_remove_node:
  "component (remove_node adj u) v = {w. (v, w) \<in> (avoiding adj {u})\<^sup>*}"
  by (simp add: component_def edges_remove_node)

lemma avoiding_star_target:
  assumes "(a, b) \<in> (avoiding adj X)\<^sup>*" and "a \<noteq> b"
  shows "b \<notin> X"
  using assms by (cases rule: rtranclE) (auto simp: avoiding_def)

lemma component_in_keys:
  assumes "symmetric adj" and "u \<in> keys adj"
  shows "component adj u \<subseteq> keys adj"
proof
  fix w assume "w \<in> component adj u"
  then have "(u, w) \<in> (edges adj)\<^sup>*" by (simp add: component_def)
  then show "w \<in> keys adj"
  proof (cases rule: rtranclE)
    case base
    with assms(2) show ?thesis by simp
  next
    case (step y)
    then have "w \<in> nbrs adj y" by (simp add: edges_def)
    then show ?thesis by (rule nbr_is_key [OF assms(1)])
  qed
qed

text \<open>Outside the component of \<open>u\<close> the removal of \<open>u\<close> changes no component.\<close>

lemma component_far:
  assumes "symmetric adj" and "a \<notin> component adj u"
  shows "component (remove_node adj u) a = component adj a"
proof -
  have no: "\<And>x. (a, x) \<in> (edges adj)\<^sup>* \<Longrightarrow> x \<notin> {u}"
  proof
    fix x assume "(a, x) \<in> (edges adj)\<^sup>*" and "x \<in> {u}"
    then have "(a, u) \<in> (edges adj)\<^sup>*" by simp
    then have "(u, a) \<in> (edges adj)\<^sup>*" by (rule edges_star_sym [OF assms(1)])
    with assms(2) show False by (simp add: component_def)
  qed
  show ?thesis
  proof (intro set_eqI iffI)
    fix w assume "w \<in> component (remove_node adj u) a"
    then have "(a, w) \<in> (avoiding adj {u})\<^sup>*" by (simp add: component_remove_node)
    then show "w \<in> component adj a"
      by (simp add: component_def avoiding_star_edges)
  next
    fix w assume "w \<in> component adj a"
    then have "(a, w) \<in> (edges adj)\<^sup>*" by (simp add: component_def)
    from path_outside [OF this no] show "w \<in> component (remove_node adj u) a"
      by (simp add: component_remove_node)
  qed
qed

lemma component_near:
  assumes "symmetric adj" and "a \<in> component adj u" and "a \<noteq> u"
  shows "component (remove_node adj u) a \<subseteq> component adj u - {u}"
proof
  fix w assume "w \<in> component (remove_node adj u) a"
  then have p: "(a, w) \<in> (avoiding adj {u})\<^sup>*" by (simp add: component_remove_node)
  then have "w \<in> component adj a" by (simp add: component_def avoiding_star_edges)
  then have 1: "w \<in> component adj u" using component_eq [OF assms(1,2)] by simp
  have "w \<noteq> u"
  proof (cases "a = w")
    case True
    with assms(3) show ?thesis by simp
  next
    case False
    from avoiding_star_target [OF p False] show ?thesis by simp
  qed
  with 1 show "w \<in> component adj u - {u}" by simp
qed

lemma card_gt_one_iff:
  assumes "finite P"
  shows "1 < card P \<longleftrightarrow> (\<exists>x \<in> P. \<exists>y \<in> P. x \<noteq> y)"
proof -
  have "card P \<le> Suc 0 \<longleftrightarrow> (\<forall>x \<in> P. \<forall>y \<in> P. x = y)"
    using card_le_Suc0_iff_eq [OF assms] .
  then show ?thesis by (metis One_nat_def not_less)
qed

text \<open>
  Removing a key \<open>u\<close> of a symmetric map raises the number of components exactly when
  \<open>u\<close> is a cut node.
\<close>

lemma cut_iff_more_components_key:
  assumes sym: "symmetric adj" and key: "u \<in> keys adj"
  shows "num_components adj < num_components (remove_node adj u) \<longleftrightarrow> is_cut adj u"
proof -
  let ?G = "remove_node adj u"
  let ?C = "component adj u"
  let ?Q = "component adj ` (keys adj - ?C)"
  let ?P = "component ?G ` (?C - {u})"
  have fin: "finite (keys adj)" by (simp add: keys_def)
  have CV: "?C \<subseteq> keys adj" by (rule component_in_keys [OF sym key])
  have uC: "u \<in> ?C" by (rule component_self)
  have uC': "\<And>a. a \<notin> ?C \<Longrightarrow> a \<noteq> u" using uC by auto
  have comps': "components ?G = ?Q \<union> ?P"
  proof (intro set_eqI iffI)
    fix K assume "K \<in> components ?G"
    then obtain a where a: "a \<in> keys adj" "a \<noteq> u" "K = component ?G a"
      by (auto simp: components_def keys_remove_node)
    show "K \<in> ?Q \<union> ?P"
    proof (cases "a \<in> ?C")
      case True
      with a show ?thesis by blast
    next
      case False
      with component_far [OF sym False] a show ?thesis by blast
    qed
  next
    fix K assume "K \<in> ?Q \<union> ?P"
    then show "K \<in> components ?G"
    proof
      assume "K \<in> ?Q"
      then obtain a where a: "a \<in> keys adj" "a \<notin> ?C" "K = component adj a" by blast
      from component_far [OF sym a(2)] a(3) have "K = component ?G a" by simp
      with a(1) uC' [OF a(2)] show ?thesis
        by (simp add: components_def keys_remove_node)
    next
      assume "K \<in> ?P"
      then obtain a where a: "a \<in> ?C" "a \<noteq> u" "K = component ?G a" by blast
      with CV show ?thesis by (auto simp: components_def keys_remove_node)
    qed
  qed
  have comps: "components adj = insert ?C ?Q"
  proof (intro set_eqI iffI)
    fix K assume "K \<in> components adj"
    then obtain a where a: "a \<in> keys adj" "K = component adj a"
      by (auto simp: components_def)
    show "K \<in> insert ?C ?Q"
    proof (cases "a \<in> ?C")
      case True
      from component_eq [OF sym True] a(2) show ?thesis by simp
    next
      case False
      with a show ?thesis by blast
    qed
  next
    fix K assume "K \<in> insert ?C ?Q"
    then have "K = ?C \<or> K \<in> ?Q" by simp
    then show "K \<in> components adj"
    proof
      assume "K = ?C"
      with key show ?thesis by (simp add: components_def)
    next
      assume "K \<in> ?Q"
      then show ?thesis by (auto simp: components_def)
    qed
  qed
  have CQ: "?C \<notin> ?Q"
  proof
    assume "?C \<in> ?Q"
    then obtain a where a: "a \<in> keys adj - ?C" "?C = component adj a" by auto
    have "a \<in> component adj a" by (rule component_self)
    with a show False by auto
  qed
  have disj: "?Q \<inter> ?P = {}"
  proof (rule ccontr)
    assume "?Q \<inter> ?P \<noteq> {}"
    then obtain K where "K \<in> ?Q" "K \<in> ?P" by auto
    then obtain a b where a: "a \<in> keys adj - ?C" "K = component adj a"
      and b: "b \<in> ?C - {u}" "K = component ?G b" by auto
    have "b \<in> K" unfolding b(2) by (rule component_self)
    then have "b \<in> component adj a" by (simp add: a(2))
    then have "component adj b = component adj a" by (rule component_eq [OF sym])
    moreover have "component adj b = ?C" using component_eq [OF sym, of b u] b(1) by simp
    ultimately have "component adj a = ?C" by simp
    moreover have "a \<in> component adj a" by (rule component_self)
    ultimately show False using a(1) by auto
  qed
  have finQ: "finite ?Q" using fin by simp
  have finP: "finite ?P" using fin CV by (meson finite_Diff finite_imageI finite_subset)
  have n: "num_components adj = Suc (card ?Q)"
    unfolding num_components_def comps using finQ CQ by simp
  have n': "num_components ?G = card ?Q + card ?P"
    unfolding num_components_def comps' using finQ finP disj by (simp add: card_Un_disjoint)
  have "num_components adj < num_components ?G \<longleftrightarrow> 1 < card ?P"
    unfolding n n' by auto
  also have "\<dots> \<longleftrightarrow> (\<exists>x \<in> ?P. \<exists>y \<in> ?P. x \<noteq> y)" by (rule card_gt_one_iff [OF finP])
  also have "\<dots> \<longleftrightarrow> (\<exists>a \<in> ?C - {u}. \<exists>b \<in> ?C - {u}. component ?G a \<noteq> component ?G b)"
    by simp
  also have "\<dots> \<longleftrightarrow> (\<exists>a \<in> ?C - {u}. \<exists>b \<in> ?C - {u}. (a, b) \<notin> (avoiding adj {u})\<^sup>*)"
  proof -
    have "\<And>a b. component ?G a = component ?G b \<longleftrightarrow> (a, b) \<in> (avoiding adj {u})\<^sup>*"
    proof
      fix a b assume "component ?G a = component ?G b"
      then have "b \<in> component ?G a" using component_self [of b ?G] by simp
      then show "(a, b) \<in> (avoiding adj {u})\<^sup>*" by (simp add: component_remove_node)
    next
      fix a b assume "(a, b) \<in> (avoiding adj {u})\<^sup>*"
      then have "b \<in> component ?G a" by (simp add: component_remove_node)
      from component_eq [OF symmetric_remove_node [OF sym] this]
      show "component ?G a = component ?G b" by simp
    qed
    then show ?thesis by simp
  qed
  also have "\<dots> \<longleftrightarrow> is_cut adj u"
    unfolding is_cut_def component_def by blast
  finally show ?thesis .
qed

lemma cut_iff_more_components_other:
  assumes sym: "symmetric adj" and key: "u \<notin> keys adj"
  shows "\<not> num_components adj < num_components (remove_node adj u)" and "\<not> is_cut adj u"
proof -
  have none: "\<And>a. u \<notin> nbrs adj a"
    using nbr_is_key [OF sym] key by blast
  have none': "nbrs adj u = {}" using key by (rule nbrs_not_key)
  have "avoiding adj {u} = edges adj"
    using none none' by (auto simp: avoiding_def edges_def)
  then have "components (remove_node adj u) = components adj"
    using key by (simp add: components_def keys_remove_node component_def edges_remove_node)
  then show "\<not> num_components adj < num_components (remove_node adj u)"
    by (simp add: num_components_def)
  show "\<not> is_cut adj u"
  proof
    assume "is_cut adj u"
    then obtain a where a: "a \<noteq> u" "(u, a) \<in> (edges adj)\<^sup>*" by (auto simp: is_cut_def)
    from a(2) a(1) show False
      by (cases rule: converse_rtranclE) (auto simp: edges_def none')
  qed
qed

lemma cut_iff_more_components:
  assumes "symmetric adj"
  shows "num_components adj < num_components (remove_node adj u) \<longleftrightarrow> is_cut adj u"
  using cut_iff_more_components_key [OF assms] cut_iff_more_components_other [OF assms]
  by (cases "u \<in> keys adj") auto

section \<open>The state operations\<close>

lemma enter_fields:
  "visited (enter d u s) = insert u (visited s)"
  "disc (enter d u s) = (disc s)(u \<mapsto> time s)"
  "low (enter d u s) = (low s)(u \<mapsto> time s)"
  "parent (enter d u s) = parent s"
  "articulation (enter d u s) = articulation s"
  "time (enter d u s) = time s + 1"
  by (simp_all add: enter_def)

lemma back_edge_result:
  assumes "low s u = Some lu" and "disc s v = Some dv"
  shows "\<exists>s1. back_edge u v s = Inr s1 \<and> visited s1 = visited s \<and> disc s1 = disc s
     \<and> low s1 = (low s)(u \<mapsto> min lu dv) \<and> parent s1 = parent s
     \<and> articulation s1 = articulation s \<and> time s1 = time s"
  using assms by (simp add: back_edge_def raising_def subscript_def)

lemma after_child_result:
  assumes "low s u = Some lu" and "low s v = Some lv" and "disc s u = Some du" and "u \<noteq> v"
  shows "\<exists>s2. after_child u v k s = Inr s2 \<and> visited s2 = visited s \<and> disc s2 = disc s
     \<and> low s2 = (low s)(u \<mapsto> min lu lv) \<and> parent s2 = parent s \<and> time s2 = time s
     \<and> articulation s2 =
         (if (parent s u = None \<and> 1 < k) \<or> (parent s u \<noteq> None \<and> du \<le> lv)
          then insert u (articulation s) else articulation s)"
  using assms by (auto simp: after_child_def raising_def subscript_def Let_def)

section \<open>Starting an activation\<close>

lemma nbrs_adj_get: "set (adj_get adj u) = nbrs adj u"
  by (simp add: nbrs_def)

lemma stack_avoids:
  assumes "stack_ok adj S stk" and "u \<notin> S" and "a \<in> set stk" and "b \<in> set stk"
  shows "(a, b) \<in> (avoiding adj {u})\<^sup>*"
proof -
  from assms(1,3,4) have "(a, b) \<in> (avoiding adj (- set stk))\<^sup>*"
    by (simp add: stack_ok_def)
  moreover from assms(1,2) have "{u} \<subseteq> - set stk" by (auto simp: stack_ok_def)
  ultimately show ?thesis by (rule avoiding_star_mono [rotated])
qed

lemma loop_inv_enter:
  assumes pre: "pre_call adj s0 u stk"
  shows "loop_inv adj s0 u stk 0 (adj_get adj u) (enter d u s0)"
proof -
  let ?s = "enter d u s0"
  from pre have en: "entry adj s0 u stk" and dd: "dom (disc s0) = visited s0"
    and dl: "dom (low s0) = visited s0" and dp: "dom (parent s0) \<subseteq> insert u (visited s0)"
    and as: "art_sound adj s0" and ac: "art_complete adj s0 stk"
    by (simp_all add: pre_call_def)
  from en have nu: "u \<notin> visited s0" and db: "disc_bounded s0"
    and st: "stack_ok adj (visited s0) stk"
    by (simp_all add: entry_def)
  have D: "visited ?s - visited s0 = {u}" using nu by (auto simp: enter_fields)
  have 1: "wf_state ?s"
    unfolding wf_state_def
  proof (intro conjI)
    show "dom (disc ?s) = visited ?s" using dd by (simp add: enter_fields)
    show "dom (low ?s) = visited ?s" using dl by (simp add: enter_fields)
    show "dom (parent ?s) \<subseteq> visited ?s" using dp by (simp add: enter_fields)
    show "disc_bounded ?s"
      using db by (fastforce simp: disc_bounded_def enter_fields split: if_splits)
  qed
  have 2: "frame s0 u ?s"
    unfolding frame_def D using nu by (auto simp: enter_fields)
  have 3: "progress adj s0 u (adj_get adj u) ?s"
    unfolding progress_def D by (simp add: nbrs_adj_get)
  have 4: "low_inv adj s0 u (adj_get adj u) ?s"
    unfolding low_inv_def D by (auto simp: enter_fields nbrs_adj_get)
  have 5: "art_sound adj ?s" using as by (simp add: art_sound_def enter_fields)
  have "visited ?s - set (u # stk) = visited s0 - set stk"
    using nu by (auto simp: enter_fields)
  then have 6: "art_complete adj ?s (u # stk)"
    using ac by (simp add: art_complete_def enter_fields)
  have 7: "art_progress adj s0 u stk 0 ?s"
    unfolding art_progress_def D using stack_avoids [OF st nu] by simp
  from en 1 2 3 4 5 6 7 show ?thesis by (simp add: loop_inv_def)
qed

lemma pre_call_top:
  assumes "top_inv adj s" and "u \<notin> visited s"
  shows "pre_call adj s u []"
proof -
  from assms(1) have wf: "wf_state s" and cl: "closed adj (visited s) []"
    and as: "art_sound adj s" and ac: "art_complete adj s []"
    by (simp_all add: top_inv_def)
  from wf assms(2) have "parent s u = None" by (auto simp: wf_state_def)
  then have "parent_ok adj s u []" by (simp add: parent_ok_def)
  moreover have "stack_ok adj (visited s) []" by (simp add: stack_ok_def)
  ultimately have "entry adj s u []"
    using assms(2) wf cl by (simp add: entry_def wf_state_def)
  with wf as ac show ?thesis by (auto simp: pre_call_def wf_state_def)
qed

section \<open>One neighbour that is already visited\<close>

lemma loop_invD:
  assumes "loop_inv adj s0 u stk c vs s"
  shows "entry adj s0 u stk" and "wf_state s" and "frame s0 u s"
    and "progress adj s0 u vs s" and "low_inv adj s0 u vs s" and "art_sound adj s"
    and "art_complete adj s (u # stk)" and "art_progress adj s0 u stk c s"
  using assms by (simp_all add: loop_inv_def)

lemma wf_state_disc:
  assumes "wf_state s" and "w \<in> visited s"
  shows "\<exists>d. disc s w = Some d"
proof -
  from assms have "w \<in> dom (disc s)" by (simp add: wf_state_def)
  then show ?thesis by (rule domD)
qed

lemma wf_state_low:
  assumes "wf_state s" and "w \<in> visited s"
  shows "\<exists>d. low s w = Some d"
proof -
  from assms have "w \<in> dom (low s)" by (simp add: wf_state_def)
  then show ?thesis by (rule domD)
qed

lemma frame_visited: "frame s0 u s \<Longrightarrow> visited s0 \<subseteq> visited s" "frame s0 u s \<Longrightarrow> u \<in> visited s"
  by (auto simp: frame_def)

lemma frame_old:
  assumes "frame s0 u s" and "w \<in> visited s0"
  shows "disc s w = disc s0 w" and "low s w = low s0 w" and "parent s w = parent s0 w"
  using assms by (simp_all add: frame_def)

lemma frame_new_disc:
  assumes "frame s0 u s" and "w \<in> visited s" and "w \<notin> visited s0" and "disc s w = Some d"
  shows "time s0 \<le> d"
  using assms by (simp add: frame_def)

lemma progress_tail:
  assumes "progress adj s0 u (v # vs) s" and "v \<in> visited s"
  shows "progress adj s0 u vs s"
  using assms by (auto simp: progress_def)

lemma loop_inv_skip:
  assumes inv: "loop_inv adj s0 u stk c (v # vs) s"
    and vis: "v \<in> visited s" and par: "parent s u = Some v"
  shows "loop_inv adj s0 u stk c vs s"
proof -
  note I = loop_invD [OF inv]
  from I(3) par have p0: "parent s0 u = Some v" by (simp add: frame_def)
  have "low_inv adj s0 u vs s"
    using I(5) p0 unfolding low_inv_def by (auto simp: set_ConsD)
  with I progress_tail [OF I(4) vis] show ?thesis by (simp add: loop_inv_def)
qed

lemma loop_inv_back:
  assumes inv: "loop_inv adj s0 u stk c (v # vs) s"
    and vis: "v \<in> visited s" and par: "parent s u \<noteq> Some v"
  shows "\<exists>s1. back_edge u v s = Inr s1 \<and> visited s1 = visited s
     \<and> loop_inv adj s0 u stk c vs s1"
proof -
  note I = loop_invD [OF inv]
  from I(1) have nu: "u \<notin> visited s0" by (simp add: entry_def)
  from I(3) par have p0: "parent s0 u \<noteq> Some v" by (simp add: frame_def)
  from I(4) have vn: "v \<in> nbrs adj u" by (simp add: progress_def)
  from I(5) obtain lu where lu: "low s u = Some lu" "lu \<le> time s0"
    and att: "lu = time s0 \<or> (\<exists>x \<in> visited s - visited s0. \<exists>w \<in> visited s0.
           w \<in> nbrs adj x \<and> \<not> (x = u \<and> parent s0 u = Some w) \<and> disc s0 w = Some lu)"
    and bnd: "\<And>x w. x \<in> visited s - visited s0 \<Longrightarrow> w \<in> visited s0 \<Longrightarrow> w \<in> nbrs adj x
           \<Longrightarrow> \<not> (x = u \<and> (parent s0 u = Some w \<or> w \<in> set (v # vs)))
           \<Longrightarrow> \<exists>d. disc s0 w = Some d \<and> lu \<le> d"
    unfolding low_inv_def by blast
  from wf_state_disc [OF I(2) vis] obtain dv where dv: "disc s v = Some dv" by blast
  from back_edge_result [OF lu(1) dv]
  obtain s1 where s1: "back_edge u v s = Inr s1" "visited s1 = visited s" "disc s1 = disc s"
    "low s1 = (low s)(u \<mapsto> min lu dv)" "parent s1 = parent s"
    "articulation s1 = articulation s" "time s1 = time s"
    by blast
  have uv: "u \<in> visited s" using I(3) by (rule frame_visited)
  have 2: "wf_state s1"
    using I(2) uv by (auto simp: wf_state_def disc_bounded_def s1)
  have 3: "frame s0 u s1"
    using I(3) nu unfolding frame_def s1 by auto
  have 4: "progress adj s0 u vs s1"
    using progress_tail [OF I(4) vis] by (simp add: progress_def s1)
  have 5: "low_inv adj s0 u vs s1"
    unfolding low_inv_def s1
  proof (intro exI conjI)
    show "((low s)(u \<mapsto> min lu dv)) u = Some (min lu dv)" by simp
    show "min lu dv \<le> time s0" using lu(2) by simp
    show "min lu dv = time s0 \<or> (\<exists>x \<in> visited s - visited s0. \<exists>w \<in> visited s0.
        w \<in> nbrs adj x \<and> \<not> (x = u \<and> parent s0 u = Some w) \<and> disc s0 w = Some (min lu dv))"
    proof (cases "lu \<le> dv")
      case True
      then have "min lu dv = lu" by simp
      with att show ?thesis by simp
    next
      case False
      then have m: "min lu dv = dv" and "dv < time s0" using lu(2) by simp_all
      with frame_new_disc [OF I(3) vis _ dv] have v0: "v \<in> visited s0" by fastforce
      then have "disc s0 v = Some dv" using frame_old(1) [OF I(3) v0] dv by simp
      with v0 vn p0 uv nu show ?thesis unfolding m by blast
    qed
    show "\<forall>x \<in> visited s - visited s0. \<forall>w \<in> visited s0.
        w \<in> nbrs adj x \<and> \<not> (x = u \<and> (parent s0 u = Some w \<or> w \<in> set vs))
        \<longrightarrow> (\<exists>d. disc s0 w = Some d \<and> min lu dv \<le> d)"
    proof (intro ballI impI)
      fix x w assume x: "x \<in> visited s - visited s0" and w: "w \<in> visited s0"
        and h: "w \<in> nbrs adj x \<and> \<not> (x = u \<and> (parent s0 u = Some w \<or> w \<in> set vs))"
      show "\<exists>d. disc s0 w = Some d \<and> min lu dv \<le> d"
      proof (cases "x = u \<and> w = v")
        case True
        then have "disc s0 w = Some dv" using frame_old(1) [OF I(3) w] dv by simp
        then show ?thesis by simp
      next
        case False
        with h have "\<not> (x = u \<and> (parent s0 u = Some w \<or> w \<in> set (v # vs)))" by auto
        from bnd [OF x w _ this] h obtain d where "disc s0 w = Some d" "lu \<le> d" by blast
        then show ?thesis by auto
      qed
    qed
  qed
  have 6: "art_sound adj s1" using I(6) by (simp add: art_sound_def s1)
  have 7: "art_complete adj s1 (u # stk)" using I(7) by (simp add: art_complete_def s1)
  have 8: "art_progress adj s0 u stk c s1" using I(8) by (simp add: art_progress_def s1)
  from I(1) 2 3 4 5 6 7 8 have "loop_inv adj s0 u stk c vs s1" by (simp add: loop_inv_def)
  with s1(1,2) show ?thesis by blast
qed

section \<open>Calling \<^verbatim>\<open>dfs\<close> for an unvisited neighbour\<close>

lemma pre_call_child:
  assumes sym: "symmetric adj"
    and inv: "loop_inv adj s0 u stk c (v # vs) s" and vis: "v \<notin> visited s"
  shows "pre_call adj (s\<lparr>parent := (parent s)(v \<mapsto> u)\<rparr>) v (u # stk)"
proof -
  let ?m = "s\<lparr>parent := (parent s)(v \<mapsto> u)\<rparr>"
  note I = loop_invD [OF inv]
  from I(1) have nu: "u \<notin> visited s0" and cl: "closed adj (visited s0) stk"
    and st: "stack_ok adj (visited s0) stk" and po: "parent_ok adj s0 u stk"
    by (simp_all add: entry_def)
  have sub: "visited s0 \<subseteq> visited s" and uv: "u \<in> visited s"
    using I(3) by (rule frame_visited)+
  from I(4) have vn: "v \<in> nbrs adj u"
    and black: "\<And>y. y \<in> visited s \<Longrightarrow> y \<notin> visited s0 \<Longrightarrow> y \<noteq> u \<Longrightarrow> nbrs adj y \<subseteq> visited s"
    by (auto simp: progress_def)
  have 1: "closed adj (visited ?m) (u # stk)"
    unfolding closed_def
  proof
    fix y assume y: "y \<in> visited ?m - set (u # stk)"
    show "nbrs adj y \<subseteq> visited ?m"
    proof (cases "y \<in> visited s0")
      case True
      with y cl have "nbrs adj y \<subseteq> visited s0" by (auto simp: closed_def)
      with sub show ?thesis by auto
    next
      case False
      with y black [of y] show ?thesis by auto
    qed
  qed
  have stk_sub: "set stk \<subseteq> visited s0" and dist: "distinct stk"
    and conn: "\<And>a b. a \<in> set stk \<Longrightarrow> b \<in> set stk \<Longrightarrow> (a, b) \<in> (avoiding adj (- set stk))\<^sup>*"
    using st by (auto simp: stack_ok_def)
  have ns: "u \<notin> set stk" using stk_sub nu by auto
  have conn': "\<And>a b. a \<in> set stk \<Longrightarrow> b \<in> set stk
       \<Longrightarrow> (a, b) \<in> (avoiding adj (- set (u # stk)))\<^sup>*"
    using conn by (rule avoiding_star_mono [rotated]) auto
  have up: "\<And>b. b \<in> set stk \<Longrightarrow> (u, b) \<in> (avoiding adj (- set (u # stk)))\<^sup>*"
  proof -
    fix b assume b: "b \<in> set stk"
    then obtain p ps where stk: "stk = p # ps" by (cases stk) auto
    with po have "p \<in> nbrs adj u" by (simp add: parent_ok_def)
    then have "(u, p) \<in> (avoiding adj (- set (u # stk)))\<^sup>*"
      by (rule avoiding_edge) (simp_all add: stk)
    moreover have "(p, b) \<in> (avoiding adj (- set (u # stk)))\<^sup>*"
      using conn' [of p b] b by (simp add: stk)
    ultimately show "(u, b) \<in> (avoiding adj (- set (u # stk)))\<^sup>*" by (rule rtrancl_trans)
  qed
  have 2: "stack_ok adj (visited ?m) (u # stk)"
    unfolding stack_ok_def
  proof (intro conjI ballI)
    show "set (u # stk) \<subseteq> visited ?m" using uv stk_sub sub by auto
    show "distinct (u # stk)" using dist ns by simp
    fix a b assume a: "a \<in> set (u # stk)" and b: "b \<in> set (u # stk)"
    show "(a, b) \<in> (avoiding adj (- set (u # stk)))\<^sup>*"
    proof (cases "a = u")
      case True
      show ?thesis
      proof (cases "b = u")
        case True
        with \<open>a = u\<close> show ?thesis by simp
      next
        case False
        with b up [of b] \<open>a = u\<close> show ?thesis by simp
      qed
    next
      case False
      with a have a': "a \<in> set stk" by simp
      show ?thesis
      proof (cases "b = u")
        case True
        from avoiding_star_sym [OF sym up [OF a']] True show ?thesis by simp
      next
        case False
        with b conn' [OF a'] show ?thesis by simp
      qed
    qed
  qed
  have 3: "parent_ok adj ?m v (u # stk)"
    using symmetricD [OF sym vn] by (simp add: parent_ok_def)
  have 4: "entry adj ?m v (u # stk)"
    using vis I(2) 1 2 3 by (simp add: entry_def wf_state_def disc_bounded_def)
  have 5: "art_sound adj ?m" using I(6) by (simp add: art_sound_def)
  have 6: "art_complete adj ?m (u # stk)" using I(7) by (simp add: art_complete_def)
  from I(2) have "dom (disc ?m) = visited ?m" "dom (low ?m) = visited ?m"
    "dom (parent ?m) \<subseteq> insert v (visited ?m)"
    by (auto simp: wf_state_def)
  with 4 5 6 show ?thesis by (simp add: pre_call_def)
qed

section \<open>A finished activation\<close>

text \<open>When the loop of \<open>v\<close> is over, an edge from a node visited by the activation of
  \<open>v\<close> leads to such a node again or to a node of the stack.\<close>

lemma finished_nbrs:
  assumes sym: "symmetric adj" and inv: "loop_inv adj sm v st c [] s1"
    and y: "y \<in> visited s1" "y \<notin> visited sm" and w: "w \<in> nbrs adj y"
  shows "w \<in> visited s1" and "w \<in> visited sm \<Longrightarrow> w \<in> set st"
proof -
  note J = loop_invD [OF inv]
  from J(4) have all: "nbrs adj v \<subseteq> visited s1"
    and black: "\<And>y. y \<in> visited s1 \<Longrightarrow> y \<notin> visited sm \<Longrightarrow> y \<noteq> v \<Longrightarrow> nbrs adj y \<subseteq> visited s1"
    by (auto simp: progress_def)
  show "w \<in> visited s1"
  proof (cases "y = v")
    case True
    with all w show ?thesis by auto
  next
    case False
    with black [OF y] w show ?thesis by auto
  qed
  assume wm: "w \<in> visited sm"
  from J(1) have cl: "closed adj (visited sm) st" by (simp add: entry_def)
  show "w \<in> set st"
  proof (rule ccontr)
    assume "w \<notin> set st"
    with wm cl have "nbrs adj w \<subseteq> visited sm" by (auto simp: closed_def)
    with symmetricD [OF sym w] y(2) show False by auto
  qed
qed

text \<open>A node that is not in \<^verbatim>\<open>articulation\<close> when its loop is over is not a cut node.\<close>

lemma loop_inv_final:
  assumes sym: "symmetric adj" and lf: "loop_free adj"
    and inv: "loop_inv adj s0 u stk c [] s" and cut: "is_cut adj u"
  shows "u \<in> articulation s"
proof (rule ccontr)
  assume no: "u \<notin> articulation s"
  note I = loop_invD [OF inv]
  let ?M = "(visited s - visited s0 - {u}) \<union> set stk"
  from I(8) no have conn: "\<And>a b. a \<in> ?M \<Longrightarrow> b \<in> ?M \<Longrightarrow> (a, b) \<in> (avoiding adj {u})\<^sup>*"
    unfolding art_progress_def by blast
  from I(1) have nu: "u \<notin> visited s0" and cl: "closed adj (visited s0) stk"
    by (simp_all add: entry_def)
  from I(4) have all: "nbrs adj u \<subseteq> visited s" by (simp add: progress_def)
  have nb: "\<And>n. n \<in> nbrs adj u \<Longrightarrow> n \<in> ?M"
  proof -
    fix n assume n: "n \<in> nbrs adj u"
    have nv: "n \<in> visited s" using all n by auto
    have ne: "n \<noteq> u" using loop_freeD [OF lf n] .
    show "n \<in> ?M"
    proof (cases "n \<in> visited s0")
      case False
      with nv ne show ?thesis by simp
    next
      case True
      have "n \<in> set stk"
      proof (rule ccontr)
        assume "n \<notin> set stk"
        with True cl have "nbrs adj n \<subseteq> visited s0" by (auto simp: closed_def)
        with symmetricD [OF sym n] nu show False by auto
      qed
      then show ?thesis by simp
    qed
  qed
  from cut obtain a b where ab: "a \<noteq> u" "b \<noteq> u" "(u, a) \<in> (edges adj)\<^sup>*"
    "(u, b) \<in> (edges adj)\<^sup>*" "(a, b) \<notin> (avoiding adj {u})\<^sup>*"
    unfolding is_cut_def by blast
  from last_exit [OF ab(3) ab(1)] obtain na where na: "na \<in> nbrs adj u"
    "(na, a) \<in> (avoiding adj {u})\<^sup>*" by blast
  from last_exit [OF ab(4) ab(2)] obtain nb' where nb': "nb' \<in> nbrs adj u"
    "(nb', b) \<in> (avoiding adj {u})\<^sup>*" by blast
  have "(a, na) \<in> (avoiding adj {u})\<^sup>*" by (rule avoiding_star_sym [OF sym na(2)])
  also have "(na, nb') \<in> (avoiding adj {u})\<^sup>*" by (rule conn [OF nb [OF na(1)] nb [OF nb'(1)]])
  also note nb'(2)
  finally show False using ab(5) by simp
qed

text \<open>A set of nodes that only edges at \<open>u\<close> leave, with a node of the component of \<open>u\<close>
  inside and one outside, shows that \<open>u\<close> is a cut node.\<close>

lemma cut_by_closed_set:
  assumes "a \<in> K" and "b \<notin> K" and "a \<noteq> u" and "b \<noteq> u"
    and "(u, a) \<in> (edges adj)\<^sup>*" and "(u, b) \<in> (edges adj)\<^sup>*"
    and cl: "\<And>y w. y \<in> K \<Longrightarrow> w \<in> nbrs adj y \<Longrightarrow> w \<noteq> u \<Longrightarrow> w \<in> K"
  shows "is_cut adj u"
proof -
  have "(a, b) \<notin> (avoiding adj {u})\<^sup>*"
  proof
    assume "(a, b) \<in> (avoiding adj {u})\<^sup>*"
    from closed_set_path [OF this assms(1)] cl have "b \<in> K" by auto
    with assms(2) show False by simp
  qed
  with assms(3-6) show ?thesis unfolding is_cut_def by blast
qed

text \<open>After the last activation on the stack has finished, the state is as between two
  iterations of the outer loop.\<close>

lemma top_inv_after:
  assumes sym: "symmetric adj" and lf: "loop_free adj"
    and inv: "loop_inv adj s0 u [] c [] s"
  shows "top_inv adj s"
proof -
  note I = loop_invD [OF inv]
  from I(1) have cl: "closed adj (visited s0) []" by (simp add: entry_def)
  have sub: "visited s0 \<subseteq> visited s" using I(3) by (rule frame_visited)
  from I(4) have all: "nbrs adj u \<subseteq> visited s"
    and black: "\<And>y. y \<in> visited s \<Longrightarrow> y \<notin> visited s0 \<Longrightarrow> y \<noteq> u \<Longrightarrow> nbrs adj y \<subseteq> visited s"
    by (auto simp: progress_def)
  have 1: "closed adj (visited s) []"
    unfolding closed_def
  proof
    fix y assume y: "y \<in> visited s - set []"
    show "nbrs adj y \<subseteq> visited s"
    proof (cases "y \<in> visited s0")
      case True
      with cl have "nbrs adj y \<subseteq> visited s0" by (auto simp: closed_def)
      with sub show ?thesis by auto
    next
      case False
      show ?thesis
      proof (cases "y = u")
        case True
        with all show ?thesis by simp
      next
        case ne: False
        from black [OF _ False ne] y show ?thesis by simp
      qed
    qed
  qed
  have 2: "art_complete adj s []"
    unfolding art_complete_def
  proof (intro ballI impI)
    fix y assume y: "y \<in> visited s - set []" and c: "is_cut adj y"
    show "y \<in> articulation s"
    proof (cases "y = u")
      case True
      with loop_inv_final [OF sym lf inv] c show ?thesis by simp
    next
      case False
      with y c I(7) show ?thesis by (simp add: art_complete_def)
    qed
  qed
  from I(2) I(6) 1 2 show ?thesis by (simp add: top_inv_def)
qed

section \<open>Returning from the call for a child\<close>

lemma child_done_basics:
  assumes "child_done adj s0 u stk c v vs s sm c1 s1"
  shows "u \<notin> visited s0" and "visited s0 \<subseteq> visited s" and "u \<in> visited s"
    and "visited s \<subseteq> visited s1" and "v \<in> visited s1" and "v \<notin> visited s" and "u \<noteq> v"
    and "v \<in> nbrs adj u"
    and "\<And>w. w \<in> visited s \<Longrightarrow> disc s1 w = disc s w"
    and "\<And>w. w \<in> visited s \<Longrightarrow> low s1 w = low s w"
    and "\<And>w. w \<in> visited s \<Longrightarrow> parent s1 w = parent s w"
    and "\<And>w. w \<in> visited s0 \<Longrightarrow> disc s w = disc s0 w"
    and "disc s u = Some (time s0)" and "time s0 < time s"
    and "parent s u = parent s0 u"
    and "articulation s \<subseteq> articulation s1"
proof -
  from assms have inv: "loop_inv adj s0 u stk c (v # vs) s" and vis: "v \<notin> visited s"
    and sm: "visited sm = visited s" "disc sm = disc s" "low sm = low s"
      "parent sm = (parent s)(v \<mapsto> u)" "articulation sm = articulation s"
    and inv1: "loop_inv adj sm v (u # stk) c1 [] s1"
    by (simp_all add: child_done_def)
  note I = loop_invD [OF inv] and J = loop_invD [OF inv1]
  show nu: "u \<notin> visited s0" using I(1) by (simp add: entry_def)
  show "visited s0 \<subseteq> visited s" using I(3) by (rule frame_visited)
  show uv: "u \<in> visited s" using I(3) by (rule frame_visited)
  show "visited s \<subseteq> visited s1" using frame_visited(1) [OF J(3)] sm(1) by simp
  show "v \<in> visited s1" using J(3) by (rule frame_visited)
  show "v \<notin> visited s" by (rule vis)
  show "u \<noteq> v" using uv vis by auto
  show "v \<in> nbrs adj u" using I(4) by (simp add: progress_def)
  show "\<And>w. w \<in> visited s \<Longrightarrow> disc s1 w = disc s w"
    using frame_old(1) [OF J(3)] sm by simp
  show "\<And>w. w \<in> visited s \<Longrightarrow> low s1 w = low s w"
    using frame_old(2) [OF J(3)] sm by simp
  show "\<And>w. w \<in> visited s \<Longrightarrow> parent s1 w = parent s w"
  proof -
    fix w assume w: "w \<in> visited s"
    then have "w \<noteq> v" using vis by auto
    with frame_old(3) [OF J(3), of w] w sm show "parent s1 w = parent s w" by simp
  qed
  show "\<And>w. w \<in> visited s0 \<Longrightarrow> disc s w = disc s0 w" using frame_old(1) [OF I(3)] .
  show du: "disc s u = Some (time s0)" using I(3) by (simp add: frame_def)
  show "time s0 < time s" using I(2) du by (auto simp: wf_state_def disc_bounded_def)
  show "parent s u = parent s0 u" using I(3) by (simp add: frame_def)
  show "articulation s \<subseteq> articulation s1" using J(3) sm by (simp add: frame_def)
qed

text \<open>What the activation of \<open>v\<close> found out about \<^verbatim>\<open>low[v]\<close>, in terms of \<open>s\<close>.\<close>

lemma child_done_low:
  assumes cd: "child_done adj s0 u stk c v vs s sm c1 s1"
  shows "\<exists>lv. low s1 v = Some lv
     \<and> (lv < time s \<longrightarrow> (\<exists>x \<in> visited s1 - visited s. \<exists>w \<in> visited s.
            w \<in> nbrs adj x \<and> disc s w = Some lv))
     \<and> (\<forall>x \<in> visited s1 - visited s. \<forall>w \<in> visited s. w \<in> nbrs adj x \<and> w \<noteq> u
            \<longrightarrow> (\<exists>d. disc s w = Some d \<and> lv \<le> d))"
proof -
  from cd have sm: "visited sm = visited s" "disc sm = disc s"
      "parent sm = (parent s)(v \<mapsto> u)" "time sm = time s"
    and inv1: "loop_inv adj sm v (u # stk) c1 [] s1"
    by (simp_all add: child_done_def)
  from loop_invD(5) [OF inv1] obtain lv where lv: "low s1 v = Some lv"
    and att: "lv = time sm \<or> (\<exists>x \<in> visited s1 - visited sm. \<exists>w \<in> visited sm.
           w \<in> nbrs adj x \<and> \<not> (x = v \<and> parent sm v = Some w) \<and> disc sm w = Some lv)"
    and bnd: "\<And>x w. x \<in> visited s1 - visited sm \<Longrightarrow> w \<in> visited sm \<Longrightarrow> w \<in> nbrs adj x
           \<Longrightarrow> \<not> (x = v \<and> (parent sm v = Some w \<or> w \<in> set []))
           \<Longrightarrow> \<exists>d. disc sm w = Some d \<and> lv \<le> d"
    unfolding low_inv_def by blast
  have 1: "lv < time s \<longrightarrow> (\<exists>x \<in> visited s1 - visited s. \<exists>w \<in> visited s.
            w \<in> nbrs adj x \<and> disc s w = Some lv)"
    using att unfolding sm by auto
  have 2: "\<forall>x \<in> visited s1 - visited s. \<forall>w \<in> visited s. w \<in> nbrs adj x \<and> w \<noteq> u
            \<longrightarrow> (\<exists>d. disc s w = Some d \<and> lv \<le> d)"
  proof (intro ballI impI)
    fix x w assume x: "x \<in> visited s1 - visited s" and w: "w \<in> visited s"
      and h: "w \<in> nbrs adj x \<and> w \<noteq> u"
    have "\<not> (x = v \<and> (parent sm v = Some w \<or> w \<in> set []))" using h by (simp add: sm)
    from bnd [OF _ _ _ this] x w h show "\<exists>d. disc s w = Some d \<and> lv \<le> d"
      by (simp add: sm)
  qed
  from lv 1 2 show ?thesis by blast
qed

text \<open>Edges from the nodes that the activation of \<open>v\<close> visited.\<close>

lemma child_done_nbrs:
  assumes cd: "child_done adj s0 u stk c v vs s sm c1 s1"
    and y: "y \<in> visited s1" "y \<notin> visited s" and w: "w \<in> nbrs adj y"
  shows "w \<in> visited s1" and "w \<in> visited s \<Longrightarrow> w \<noteq> u \<Longrightarrow> w \<in> set stk"
proof -
  from cd have sym: "symmetric adj" and sm: "visited sm = visited s"
    and inv1: "loop_inv adj sm v (u # stk) c1 [] s1"
    by (simp_all add: child_done_def)
  from y have y': "y \<notin> visited sm" by (simp add: sm)
  show "w \<in> visited s1" by (rule finished_nbrs(1) [OF sym inv1 y(1) y' w])
  assume "w \<in> visited s" and "w \<noteq> u"
  with finished_nbrs(2) [OF sym inv1 y(1) y' w] show "w \<in> set stk" by (simp add: sm)
qed

lemma child_done_paths:
  assumes cd: "child_done adj s0 u stk c v vs s sm c1 s1"
    and x: "x \<in> visited s1" "x \<notin> visited s"
  shows "(v, x) \<in> (avoiding adj (visited s))\<^sup>*"
proof -
  from cd have sm: "visited sm = visited s"
    and inv1: "loop_inv adj sm v (u # stk) c1 [] s1"
    by (simp_all add: child_done_def)
  from loop_invD(4) [OF inv1] x show ?thesis by (simp add: progress_def sm)
qed

text \<open>A root with a second child is a cut node.\<close>

lemma root_second_child_cut:
  assumes cd: "child_done adj s0 u stk c v vs s sm c1 s1"
    and root: "parent s0 u = None" and second: "1 < c + 1"
  shows "is_cut adj u"
proof -
  from cd have inv: "loop_inv adj s0 u stk c (v # vs) s" by (simp add: child_done_def)
  note I = loop_invD [OF inv] and B = child_done_basics [OF cd]
  from I(1) root have stk: "stk = []"
    by (cases stk) (simp_all add: entry_def parent_ok_def)
  from I(8) second have "visited s - visited s0 \<noteq> {u}" by (simp add: art_progress_def)
  with B(1,3) obtain x where x: "x \<in> visited s" "x \<notin> visited s0" "x \<noteq> u" by blast
  from I(4) x have "(u, x) \<in> (avoiding adj (visited s0))\<^sup>*" by (simp add: progress_def)
  then have ux: "(u, x) \<in> (edges adj)\<^sup>*" by (rule avoiding_star_edges)
  have uv: "(u, v) \<in> (edges adj)\<^sup>*" using B(8) by (simp add: edges_def r_into_rtrancl)
  let ?K = "visited s1 - visited s"
  have cl: "\<And>y w. y \<in> ?K \<Longrightarrow> w \<in> nbrs adj y \<Longrightarrow> w \<noteq> u \<Longrightarrow> w \<in> ?K"
  proof -
    fix y w assume y: "y \<in> ?K" and w: "w \<in> nbrs adj y" and ne: "w \<noteq> u"
    from y have y1: "y \<in> visited s1" and y2: "y \<notin> visited s" by simp_all
    from child_done_nbrs [OF cd y1 y2 w] ne stk show "w \<in> ?K" by auto
  qed
  have vK: "v \<in> ?K" using B(5,6) by simp
  have xK: "x \<notin> ?K" using x(1) by simp
  have vu: "v \<noteq> u" using B(7) by simp
  show ?thesis by (rule cut_by_closed_set [OF vK xK vu x(3) uv ux cl])
qed

text \<open>A node with a parent and a child \<open>v\<close> such that \<^verbatim>\<open>low[v] >= disc[u]\<close> is a cut
  node.\<close>

lemma low_child_cut:
  assumes cd: "child_done adj s0 u stk c v vs s sm c1 s1"
    and par: "parent s0 u = Some p" and lv: "low s1 v = Some lv" and ge: "time s0 \<le> lv"
  shows "is_cut adj u"
proof -
  from cd have inv: "loop_inv adj s0 u stk c (v # vs) s" by (simp add: child_done_def)
  note I = loop_invD [OF inv] and B = child_done_basics [OF cd]
  from I(1) have db0: "disc_bounded s0" and st: "stack_ok adj (visited s0) stk"
    and po: "parent_ok adj s0 u stk" by (simp_all add: entry_def)
  from po par have pn: "p \<in> nbrs adj u" and ps: "p \<in> set stk"
    by (cases stk; simp add: parent_ok_def)+
  from st have stk0: "set stk \<subseteq> visited s0" by (simp add: stack_ok_def)
  with ps have p0: "p \<in> visited s0" by auto
  from child_done_low [OF cd] lv
  have bnd: "\<And>x w. x \<in> visited s1 - visited s \<Longrightarrow> w \<in> visited s \<Longrightarrow> w \<in> nbrs adj x
      \<Longrightarrow> w \<noteq> u \<Longrightarrow> \<exists>d. disc s w = Some d \<and> lv \<le> d"
    by auto
  let ?K = "visited s1 - visited s"
  have cl: "\<And>y w. y \<in> ?K \<Longrightarrow> w \<in> nbrs adj y \<Longrightarrow> w \<noteq> u \<Longrightarrow> w \<in> ?K"
  proof -
    fix y w assume y: "y \<in> ?K" and w: "w \<in> nbrs adj y" and ne: "w \<noteq> u"
    from y have y1: "y \<in> visited s1" and y2: "y \<notin> visited s" by simp_all
    note N = child_done_nbrs [OF cd y1 y2 w]
    show "w \<in> ?K"
    proof (rule ccontr)
      assume "w \<notin> ?K"
      with N(1) have ws: "w \<in> visited s" by simp
      from N(2) [OF ws ne] stk0 have w0: "w \<in> visited s0" by auto
      from bnd [OF y ws w ne] obtain d where d: "disc s w = Some d" "lv \<le> d" by blast
      from d(1) B(12) [OF w0] have "disc s0 w = Some d" by simp
      with db0 have "d < time s0" by (simp add: disc_bounded_def)
      with d(2) ge show False by simp
    qed
  qed
  have uv: "(u, v) \<in> (edges adj)\<^sup>*" using B(8) by (simp add: edges_def r_into_rtrancl)
  have up: "(u, p) \<in> (edges adj)\<^sup>*" using pn by (simp add: edges_def r_into_rtrancl)
  have vK: "v \<in> ?K" using B(5,6) by simp
  have pK: "p \<notin> ?K" using p0 B(2) by auto
  have pu: "p \<noteq> u" using p0 B(1) by auto
  have vu: "v \<noteq> u" using B(7) by simp
  show ?thesis by (rule cut_by_closed_set [OF vK pK vu pu uv up cl])
qed

text \<open>If \<open>u\<close> is still not in \<^verbatim>\<open>articulation\<close>, paths that avoid \<open>u\<close> join \<open>v\<close> to
  every node visited since \<open>s0\<close> and to every node of the stack.\<close>

lemma child_done_joined:
  assumes cd: "child_done adj s0 u stk c v vs s sm c1 s1"
    and lv: "low s1 v = Some lv"
    and nomark: "\<not> ((parent s0 u = None \<and> 1 < c + 1) \<or> (parent s0 u \<noteq> None \<and> time s0 \<le> lv))"
    and nou: "u \<notin> articulation s"
    and a: "a \<in> (visited s1 - visited s0 - {u}) \<union> set stk"
  shows "(v, a) \<in> (avoiding adj {u})\<^sup>*"
proof -
  from cd have sym: "symmetric adj" and inv: "loop_inv adj s0 u stk c (v # vs) s"
    by (simp_all add: child_done_def)
  note I = loop_invD [OF inv] and B = child_done_basics [OF cd]
  let ?M = "(visited s - visited s0 - {u}) \<union> set stk"
  from I(8) nou have conn: "\<And>a b. a \<in> ?M \<Longrightarrow> b \<in> ?M \<Longrightarrow> (a, b) \<in> (avoiding adj {u})\<^sup>*"
    and c0: "0 \<le> c" and cz: "c = 0 \<longleftrightarrow> visited s - visited s0 = {u}"
    unfolding art_progress_def by blast+
  from I(1) have po: "parent_ok adj s0 u stk" by (simp add: entry_def)
  have new: "\<And>x. x \<in> visited s1 \<Longrightarrow> x \<notin> visited s \<Longrightarrow> (v, x) \<in> (avoiding adj {u})\<^sup>*"
  proof -
    fix x assume "x \<in> visited s1" "x \<notin> visited s"
    from child_done_paths [OF cd this] show "(v, x) \<in> (avoiding adj {u})\<^sup>*"
      by (rule avoiding_star_mono [rotated]) (simp add: B(3))
  qed
  show ?thesis
  proof (cases "a \<in> ?M")
    case False
    with a have "a \<in> visited s1" "a \<notin> visited s" by auto
    then show ?thesis by (rule new)
  next
    case True
    have "parent s0 u \<noteq> None"
    proof
      assume none: "parent s0 u = None"
      with po have "stk = []" by (cases stk) (simp_all add: parent_ok_def)
      moreover from none nomark c0 have "c = 0" by simp
      ultimately show False using True cz by auto
    qed
    with nomark have less: "lv < time s0" by simp
    with B(14) have "lv < time s" by simp
    with child_done_low [OF cd] lv obtain x w where x: "x \<in> visited s1" "x \<notin> visited s"
      and w: "w \<in> visited s" "w \<in> nbrs adj x" "disc s w = Some lv"
      by auto
    have w0: "w \<in> visited s0"
    proof (rule ccontr)
      assume "w \<notin> visited s0"
      from frame_new_disc [OF I(3) w(1) this w(3)] less show False by simp
    qed
    then have wu: "w \<noteq> u" using B(1) by auto
    have xu: "x \<noteq> u" using x(2) B(3) by auto
    from child_done_nbrs(2) [OF cd x w(2) w(1) wu] have "w \<in> ?M" by simp
    from conn [OF this True] have 3: "(w, a) \<in> (avoiding adj {u})\<^sup>*" .
    have 2: "(x, w) \<in> (avoiding adj {u})\<^sup>*" using w(2) xu wu by (intro avoiding_edge) auto
    from new [OF x] 2 3 show ?thesis by (meson rtrancl_trans)
  qed
qed

lemma loop_inv_return:
  assumes cd: "child_done adj s0 u stk c v vs s sm c1 s1"
  shows "\<exists>s2. after_child u v (c + 1) s1 = Inr s2 \<and> visited s2 = visited s1
     \<and> loop_inv adj s0 u stk (c + 1) vs s2"
proof -
  from cd have sym: "symmetric adj" and lf: "loop_free adj"
    and inv: "loop_inv adj s0 u stk c (v # vs) s"
    and sm: "visited sm = visited s" "time sm = time s"
    and inv1: "loop_inv adj sm v (u # stk) c1 [] s1"
    by (simp_all add: child_done_def)
  note I = loop_invD [OF inv] and J = loop_invD [OF inv1] and B = child_done_basics [OF cd]
  from I(5) obtain lu where lu: "low s u = Some lu" "lu \<le> time s0"
    and attu: "lu = time s0 \<or> (\<exists>x \<in> visited s - visited s0. \<exists>w \<in> visited s0.
           w \<in> nbrs adj x \<and> \<not> (x = u \<and> parent s0 u = Some w) \<and> disc s0 w = Some lu)"
    and bndu: "\<And>x w. x \<in> visited s - visited s0 \<Longrightarrow> w \<in> visited s0 \<Longrightarrow> w \<in> nbrs adj x
           \<Longrightarrow> \<not> (x = u \<and> (parent s0 u = Some w \<or> w \<in> set (v # vs)))
           \<Longrightarrow> \<exists>d. disc s0 w = Some d \<and> lu \<le> d"
    unfolding low_inv_def by blast
  from child_done_low [OF cd] obtain lv where lv: "low s1 v = Some lv"
    and attv: "lv < time s \<Longrightarrow> \<exists>x \<in> visited s1 - visited s. \<exists>w \<in> visited s.
            w \<in> nbrs adj x \<and> disc s w = Some lv"
    and bndv: "\<And>x w. x \<in> visited s1 - visited s \<Longrightarrow> w \<in> visited s \<Longrightarrow> w \<in> nbrs adj x
            \<Longrightarrow> w \<noteq> u \<Longrightarrow> \<exists>d. disc s w = Some d \<and> lv \<le> d"
    by blast
  have lu1: "low s1 u = Some lu" using B(10) [OF B(3)] lu(1) by simp
  have du1: "disc s1 u = Some (time s0)" using B(9) [OF B(3)] B(13) by simp
  have p1: "parent s1 u = parent s0 u" using B(11) [OF B(3)] B(15) by simp
  have u1: "u \<in> visited s1" using B(3,4) by auto
  define mark where
    "mark \<longleftrightarrow> (parent s0 u = None \<and> 1 < c + 1) \<or> (parent s0 u \<noteq> None \<and> time s0 \<le> lv)"
  from after_child_result [OF lu1 lv du1 B(7), of "c + 1"]
  obtain s2 where s2: "after_child u v (c + 1) s1 = Inr s2" "visited s2 = visited s1"
    "disc s2 = disc s1" "low s2 = (low s1)(u \<mapsto> min lu lv)" "parent s2 = parent s1"
    "time s2 = time s1"
    and art2: "articulation s2 = (if mark then insert u (articulation s1) else articulation s1)"
    unfolding mark_def p1 by blast
  have 2: "wf_state s2"
    using J(2) u1 by (auto simp: wf_state_def disc_bounded_def s2)
  have 3: "frame s0 u s2"
    unfolding frame_def
  proof (intro conjI ballI allI impI)
    show "insert u (visited s0) \<subseteq> visited s2" using B(2,3,4) by (auto simp: s2)
  next
    fix w assume w: "w \<in> visited s0"
    then have ws: "w \<in> visited s" and wu: "w \<noteq> u" using B(1,2) by auto
    show "disc s2 w = disc s0 w" using B(9) [OF ws] B(12) [OF w] by (simp add: s2)
    show "low s2 w = low s0 w"
      using B(10) [OF ws] frame_old(2) [OF I(3) w] wu by (simp add: s2)
    show "parent s2 w = parent s0 w"
      using B(11) [OF ws] frame_old(3) [OF I(3) w] by (simp add: s2)
  next
    show "parent s2 u = parent s0 u" using p1 by (simp add: s2)
    show "articulation s0 \<subseteq> articulation s2"
      using I(3) B(16) by (auto simp: frame_def art2)
    show "disc s2 u = Some (time s0)" using du1 by (simp add: s2)
  next
    fix w d assume w: "w \<in> visited s2 - visited s0" and d: "disc s2 w = Some d"
    show "time s0 \<le> d"
    proof (cases "w \<in> visited s")
      case True
      with B(9) [OF True] d have "disc s w = Some d" by (simp add: s2)
      from frame_new_disc [OF I(3) True _ this] w show ?thesis by simp
    next
      case False
      with w d frame_new_disc [OF J(3), of w d] have "time sm \<le> d" by (simp add: s2 sm)
      with B(14) show ?thesis by (simp add: sm)
    qed
  qed
  from I(4) have vsn: "set (v # vs) \<subseteq> nbrs adj u"
    and seen: "nbrs adj u - set (v # vs) \<subseteq> visited s"
    and black: "\<And>y. y \<in> visited s \<Longrightarrow> y \<notin> visited s0 \<Longrightarrow> y \<noteq> u \<Longrightarrow> nbrs adj y \<subseteq> visited s"
    and paths: "\<And>x. x \<in> visited s \<Longrightarrow> x \<notin> visited s0 \<Longrightarrow> (u, x) \<in> (avoiding adj (visited s0))\<^sup>*"
    by (auto simp: progress_def)
  have 4: "progress adj s0 u vs s2"
    unfolding progress_def
  proof (intro conjI ballI)
    show "set vs \<subseteq> nbrs adj u" using vsn by simp
    show "nbrs adj u - set vs \<subseteq> visited s2" using seen B(4,5) by (auto simp: s2)
  next
    fix y assume y: "y \<in> visited s2 - visited s0 - {u}"
    show "nbrs adj y \<subseteq> visited s2"
    proof (cases "y \<in> visited s")
      case True
      with black [of y] y B(4) show ?thesis by (auto simp: s2)
    next
      case False
      with y child_done_nbrs(1) [OF cd _ False] show ?thesis by (auto simp: s2)
    qed
  next
    fix x assume x: "x \<in> visited s2 - visited s0"
    show "(u, x) \<in> (avoiding adj (visited s0))\<^sup>*"
    proof (cases "x \<in> visited s")
      case True
      with paths [of x] x show ?thesis by simp
    next
      case False
      with x have "(v, x) \<in> (avoiding adj (visited s))\<^sup>*"
        by (intro child_done_paths [OF cd]) (simp_all add: s2)
      then have "(v, x) \<in> (avoiding adj (visited s0))\<^sup>*"
        by (rule avoiding_star_mono [OF B(2)])
      moreover have "(u, v) \<in> (avoiding adj (visited s0))\<^sup>*"
        using B(8) B(1) B(6) B(2) by (intro avoiding_edge) auto
      ultimately show ?thesis by (meson rtrancl_trans)
    qed
  qed
  have 5: "low_inv adj s0 u vs s2"
    unfolding low_inv_def
  proof (intro exI conjI)
    show "low s2 u = Some (min lu lv)" by (simp add: s2)
    show "min lu lv \<le> time s0" using lu(2) by simp
    show "min lu lv = time s0 \<or> (\<exists>x \<in> visited s2 - visited s0. \<exists>w \<in> visited s0.
        w \<in> nbrs adj x \<and> \<not> (x = u \<and> parent s0 u = Some w) \<and> disc s0 w = Some (min lu lv))"
    proof (cases "lu \<le> lv")
      case True
      then have m: "min lu lv = lu" by simp
      from attu B(4) show ?thesis unfolding m s2 by blast
    next
      case False
      then have m: "min lu lv = lv" and less: "lv < time s0" using lu(2) by simp_all
      with B(14) have "lv < time s" by simp
      from attv [OF this] obtain x w where x: "x \<in> visited s1" "x \<notin> visited s"
        and w: "w \<in> visited s" "w \<in> nbrs adj x" "disc s w = Some lv" by auto
      have w0: "w \<in> visited s0"
      proof (rule ccontr)
        assume "w \<notin> visited s0"
        from frame_new_disc [OF I(3) w(1) this w(3)] less show False by simp
      qed
      have "disc s0 w = Some lv" using B(12) [OF w0] w(3) by simp
      moreover have "x \<noteq> u" using x(2) B(3) by auto
      moreover have "x \<in> visited s2 - visited s0" using x B(2) by (auto simp: s2)
      ultimately show ?thesis unfolding m using w0 w(2) by blast
    qed
    show "\<forall>x \<in> visited s2 - visited s0. \<forall>w \<in> visited s0.
        w \<in> nbrs adj x \<and> \<not> (x = u \<and> (parent s0 u = Some w \<or> w \<in> set vs))
        \<longrightarrow> (\<exists>d. disc s0 w = Some d \<and> min lu lv \<le> d)"
    proof (intro ballI impI)
      fix x w assume x: "x \<in> visited s2 - visited s0" and w: "w \<in> visited s0"
        and h: "w \<in> nbrs adj x \<and> \<not> (x = u \<and> (parent s0 u = Some w \<or> w \<in> set vs))"
      have ws: "w \<in> visited s" and wu: "w \<noteq> u" and wv: "w \<noteq> v" using w B(1,2,6) by auto
      show "\<exists>d. disc s0 w = Some d \<and> min lu lv \<le> d"
      proof (cases "x \<in> visited s")
        case True
        with x have x': "x \<in> visited s - visited s0" by simp
        from h wv have "\<not> (x = u \<and> (parent s0 u = Some w \<or> w \<in> set (v # vs)))" by auto
        from bndu [OF x' w _ this] h obtain d where "disc s0 w = Some d" "lu \<le> d" by blast
        then show ?thesis by auto
      next
        case False
        with x have x': "x \<in> visited s1 - visited s" by (simp add: s2)
        from bndv [OF x' ws _ wu] h obtain d where d: "disc s w = Some d" "lv \<le> d" by blast
        from d(1) B(12) [OF w] have "disc s0 w = Some d" by simp
        with d(2) show ?thesis by auto
      qed
    qed
  qed
  have cut: "mark \<Longrightarrow> is_cut adj u"
  proof -
    assume mark
    show "is_cut adj u"
    proof (cases "parent s0 u")
      case None
      with \<open>mark\<close> have "1 < c + 1" by (simp add: mark_def)
      from root_second_child_cut [OF cd None this] show ?thesis .
    next
      case (Some p)
      with \<open>mark\<close> have "time s0 \<le> lv" by (simp add: mark_def)
      from low_child_cut [OF cd Some lv this] show ?thesis .
    qed
  qed
  have 6: "art_sound adj s2"
    using J(6) cut unfolding art_sound_def art2 by (auto split: if_splits)
  have sub12: "articulation s1 \<subseteq> articulation s2" by (auto simp: art2)
  have 7: "art_complete adj s2 (u # stk)"
    unfolding art_complete_def
  proof (intro ballI impI)
    fix y assume y: "y \<in> visited s2 - set (u # stk)" and c: "is_cut adj y"
    show "y \<in> articulation s2"
    proof (cases "y = v")
      case True
      with loop_inv_final [OF sym lf inv1] c sub12 show ?thesis by auto
    next
      case False
      with y have "y \<in> visited s1 - set (v # u # stk)" by (simp add: s2)
      with J(7) c sub12 show ?thesis by (auto simp: art_complete_def)
    qed
  qed
  from I(8) have c0: "0 \<le> c" by (simp add: art_progress_def)
  have 8: "art_progress adj s0 u stk (c + 1) s2"
    unfolding art_progress_def
  proof (intro conjI)
    show "0 \<le> c + 1" using c0 by simp
    have "v \<in> visited s2 - visited s0" using B(5,6,2) by (auto simp: s2)
    with B(7) have "visited s2 - visited s0 \<noteq> {u}" by auto
    with c0 show "c + 1 = 0 \<longleftrightarrow> visited s2 - visited s0 = {u}" by simp
    let ?M = "(visited s2 - visited s0 - {u}) \<union> set stk"
    show "u \<in> articulation s2 \<or> (\<forall>a \<in> ?M. \<forall>b \<in> ?M. (a, b) \<in> (avoiding adj {u})\<^sup>*)"
    proof (cases "u \<in> articulation s2")
      case True
      then show ?thesis by simp
    next
      case False
      then have nm: "\<not> mark" and "u \<notin> articulation s1" by (auto simp: art2 split: if_splits)
      with B(16) have nou: "u \<notin> articulation s" by auto
      have j: "\<And>a. a \<in> ?M \<Longrightarrow> (v, a) \<in> (avoiding adj {u})\<^sup>*"
        using child_done_joined [OF cd lv nm [unfolded mark_def] nou] by (simp add: s2)
      have "\<forall>a \<in> ?M. \<forall>b \<in> ?M. (a, b) \<in> (avoiding adj {u})\<^sup>*"
      proof (intro ballI)
        fix a b assume a: "a \<in> ?M" and b: "b \<in> ?M"
        have "(a, v) \<in> (avoiding adj {u})\<^sup>*" by (rule avoiding_star_sym [OF sym j [OF a]])
        with j [OF b] show "(a, b) \<in> (avoiding adj {u})\<^sup>*" by (meson rtrancl_trans)
      qed
      then show ?thesis by simp
    qed
  qed
  from I(1) 2 3 4 5 6 7 8 have "loop_inv adj s0 u stk (c + 1) vs s2"
    by (simp add: loop_inv_def)
  with s2(1,2) show ?thesis by blast
qed

section \<open>The traversal returns and keeps the invariant\<close>

lemma dfs_loop_Nil: "dfs_loop limit adj d u c [] s = Some (Inr s)"
  by (subst dfs_loop.simps) simp

lemma dfs_loop_skip:
  "v \<in> visited s \<Longrightarrow> parent s u = Some v
   \<Longrightarrow> dfs_loop limit adj d u c (v # vs) s = dfs_loop limit adj d u c vs s"
  by (subst dfs_loop.simps) simp

lemma dfs_loop_back:
  "v \<in> visited s \<Longrightarrow> parent s u \<noteq> Some v \<Longrightarrow> back_edge u v s = Inr s1
   \<Longrightarrow> dfs_loop limit adj d u c (v # vs) s = dfs_loop limit adj d u c vs s1"
  by (subst dfs_loop.simps) simp

text \<open>The call \<^verbatim>\<open>dfs(v)\<close> in the loop of \<open>u\<close>: it returns, or its exception ends the loop.\<close>

lemma dfs_loop_child:
  "v \<notin> visited s
   \<Longrightarrow> dfs limit adj (d + 1) v (s\<lparr>parent := (parent s)(v \<mapsto> u)\<rparr>) = Some (Inr s1)
   \<Longrightarrow> after_child u v (c + 1) s1 = Inr s2
   \<Longrightarrow> dfs_loop limit adj d u c (v # vs) s = dfs_loop limit adj d u (c + 1) vs s2"
  by (subst dfs_loop.simps) (simp add: dfs_def split: if_splits)

lemma dfs_loop_raise:
  "v \<notin> visited s
   \<Longrightarrow> dfs limit adj (d + 1) v (s\<lparr>parent := (parent s)(v \<mapsto> u)\<rparr>) = Some (Inl e)
   \<Longrightarrow> dfs_loop limit adj d u c (v # vs) s = Some (Inl e)"
  by (subst dfs_loop.simps) (simp add: dfs_def split: if_splits)

lemma dfs_overflow: "limit < d \<Longrightarrow> dfs limit adj d u s = Some (Inl RecursionError)"
  by (simp add: dfs_def)

lemma dfs_within:
  "d \<le> limit \<Longrightarrow> dfs limit adj d u s = dfs_loop limit adj d u 0 (adj_get adj u) (enter d u s)"
  by (simp add: dfs_def)

lemma card_unvisited_less:
  assumes "v \<in> keys adj" and "v \<notin> S" and "insert v S \<subseteq> S'"
  shows "card (keys adj - S') < card (keys adj - S)"
proof -
  have "finite (keys adj - S)" by (simp add: keys_def)
  moreover have "keys adj - S' \<subset> keys adj - S" using assms by auto
  ultimately show ?thesis by (rule psubset_card_mono)
qed

text \<open>
  The nodes of the stack are pairwise different and lie in one component, so an
  activation of depth \<open>d\<close> needs a component with at least \<open>d\<close> nodes.
\<close>

lemma stack_in_component:
  assumes sym: "symmetric adj" and st: "stack_ok adj S (u # stk)" and v: "v \<in> nbrs adj u"
    and new: "v \<notin> S"
  shows "Suc (Suc (length stk)) \<le> card (component adj v)" and "v \<in> keys adj"
proof -
  from v show vk: "v \<in> keys adj" by (rule nbr_is_key [OF sym])
  from st have sub: "set (u # stk) \<subseteq> S" and dist: "distinct (u # stk)"
    by (simp_all add: stack_ok_def)
  from st have conn: "\<And>b. b \<in> set (u # stk) \<Longrightarrow> (u, b) \<in> (avoiding adj (- set (u # stk)))\<^sup>*"
    by (auto simp: stack_ok_def)
  from v have uc: "u \<in> component adj v"
    using symmetricD [OF sym v] by (auto simp: component_def edges_def)
  have "set (u # stk) \<subseteq> component adj u"
  proof
    fix b assume "b \<in> set (u # stk)"
    from avoiding_star_edges [OF conn [OF this]] show "b \<in> component adj u"
      by (simp add: component_def)
  qed
  then have in_c: "set (v # u # stk) \<subseteq> component adj v"
    using component_eq [OF sym uc] component_self [of v adj] by simp
  have fin: "finite (component adj v)"
    using component_in_keys [OF sym vk] by (rule finite_subset) (simp add: keys_def)
  have "distinct (v # u # stk)" using dist sub new by auto
  then have "card (set (v # u # stk)) = Suc (Suc (length stk))"
    using distinct_card [of "v # u # stk"] by simp
  with card_mono [OF fin in_c] show "Suc (Suc (length stk)) \<le> card (component adj v)" by simp
qed

text \<open>
  On a symmetric map without self-loops the loop of an activation ends in one of two
  ways: it returns with the invariant, or it raises \<^verbatim>\<open>RecursionError\<close>, and then some
  component has more nodes than activations fit on the call stack.
\<close>

lemma dfs_loop_total:
  assumes sym: "symmetric adj" and lf: "loop_free adj"
  shows "loop_inv adj s0 u stk c vs s \<Longrightarrow> card (keys adj - visited s) = n
    \<Longrightarrow> d = Suc (length stk)
    \<Longrightarrow> (\<exists>s' c'. dfs_loop limit adj d u c vs s = Some (Inr s') \<and> loop_inv adj s0 u stk c' [] s')
       \<or> (dfs_loop limit adj d u c vs s = Some (Inl RecursionError) \<and> deep limit adj)"
proof (induction n arbitrary: s0 u stk c vs s d rule: less_induct)
  case (less n)
  from less.prems show ?case
  proof (induction vs arbitrary: c s)
    case Nil
    then show ?case by (auto simp: dfs_loop_Nil)
  next
    case (Cons v vs)
    note inv = Cons.prems(1) and card = Cons.prems(2) and d = Cons.prems(3)
    show ?case
    proof (cases "v \<in> visited s")
      case True
      show ?thesis
      proof (cases "parent s u = Some v")
        case par: True
        from Cons.IH [OF loop_inv_skip [OF inv True par] card d]
        show ?thesis by (simp add: dfs_loop_skip [OF True par])
      next
        case par: False
        from loop_inv_back [OF inv True par] obtain s1 where s1: "back_edge u v s = Inr s1"
          "visited s1 = visited s" "loop_inv adj s0 u stk c vs s1" by blast
        from card s1(2) have "card (keys adj - visited s1) = n" by simp
        from Cons.IH [OF s1(3) this d]
        show ?thesis by (simp add: dfs_loop_back [OF True par s1(1)])
      qed
    next
      case False
      let ?m = "s\<lparr>parent := (parent s)(v \<mapsto> u)\<rparr>"
      let ?e = "enter (d + 1) v ?m"
      note pre = pre_call_child [OF sym inv False]
      from loop_invD(4) [OF inv] have vn: "v \<in> nbrs adj u" by (simp add: progress_def)
      then have vk: "v \<in> keys adj" by (rule nbr_is_key [OF sym])
      show ?thesis
      proof (cases "limit < d + 1")
        case True
        from pre have "stack_ok adj (visited s) (u # stk)" by (simp add: pre_call_def entry_def)
        from stack_in_component(1) [OF sym this vn False] True d
        have "limit < card (component adj v)" by simp
        with vk have "deep limit adj" unfolding deep_def by blast
        moreover have "dfs_loop limit adj d u c (v # vs) s = Some (Inl RecursionError)"
          by (rule dfs_loop_raise [OF False dfs_overflow [OF True]])
        ultimately show ?thesis by simp
      next
        case within: False
        then have dfs_eq: "dfs limit adj (d + 1) v ?m
            = dfs_loop limit adj (d + 1) v 0 (adj_get adj v) ?e"
          by (simp add: dfs_def)
        have inv_e: "loop_inv adj ?m v (u # stk) 0 (adj_get adj v) ?e"
          by (rule loop_inv_enter [OF pre])
        have "card (keys adj - visited ?e) < card (keys adj - visited s)"
          by (rule card_unvisited_less [OF vk False]) (simp add: enter_fields)
        then have less_e: "card (keys adj - visited ?e) < n" using card by simp
        have d1: "d + 1 = Suc (length (u # stk))" using d by simp
        from less.IH [OF less_e inv_e refl d1]
        show ?thesis
        proof
          assume "\<exists>s' c'. dfs_loop limit adj (d + 1) v 0 (adj_get adj v) ?e = Some (Inr s')
            \<and> loop_inv adj ?m v (u # stk) c' [] s'"
          then obtain s1 c1 where
            s1: "dfs_loop limit adj (d + 1) v 0 (adj_get adj v) ?e = Some (Inr s1)"
              "loop_inv adj ?m v (u # stk) c1 [] s1" by blast
          have cd: "child_done adj s0 u stk c v vs s ?m c1 s1"
            using sym lf inv False s1(2) by (simp add: child_done_def)
          from loop_inv_return [OF cd] obtain s2 where s2: "after_child u v (c + 1) s1 = Inr s2"
            "visited s2 = visited s1" "loop_inv adj s0 u stk (c + 1) vs s2" by blast
          have "insert v (visited s) \<subseteq> visited s2"
            using child_done_basics(4,5) [OF cd] by (simp add: s2(2))
          from card_unvisited_less [OF vk False this] card
          have less_2: "card (keys adj - visited s2) < n" by simp
          have call: "dfs limit adj (d + 1) v ?m = Some (Inr s1)" using s1(1) dfs_eq by simp
          from less.IH [OF less_2 s2(3) refl d]
          show ?thesis by (simp add: dfs_loop_child [OF False call s2(1)])
        next
          assume "dfs_loop limit adj (d + 1) v 0 (adj_get adj v) ?e = Some (Inl RecursionError)
            \<and> deep limit adj"
          then have call: "dfs limit adj (d + 1) v ?m = Some (Inl RecursionError)"
            and deep: "deep limit adj" using dfs_eq by simp_all
          from dfs_loop_raise [OF False call] deep show ?thesis by simp
        qed
      qed
    qed
  qed
qed

lemma top_inv_init: "top_inv adj init_state"
  by (simp add: top_inv_def wf_state_def disc_bounded_def closed_def art_sound_def
      art_complete_def init_state_def)

lemma roots_total:
  assumes sym: "symmetric adj" and lf: "loop_free adj"
  shows "top_inv adj s \<Longrightarrow> set us \<subseteq> keys adj
    \<Longrightarrow> (\<exists>s'. roots limit adj us s = Some (Inr s') \<and> top_inv adj s'
            \<and> visited s \<union> set us \<subseteq> visited s')
       \<or> (roots limit adj us s = Some (Inl RecursionError) \<and> deep limit adj)"
proof (induction us arbitrary: s)
  case Nil
  then show ?case by simp
next
  case (Cons u us)
  from Cons.prems(2) have uk: "u \<in> keys adj" and us: "set us \<subseteq> keys adj" by simp_all
  show ?case
  proof (cases "u \<in> visited s")
    case True
    with Cons.IH [OF Cons.prems(1) us] show ?thesis by auto
  next
    case False
    show ?thesis
    proof (cases "limit < 1")
      case True
      have "component adj u \<subseteq> keys adj" by (rule component_in_keys [OF sym uk])
      then have "finite (component adj u)" by (rule finite_subset) (simp add: keys_def)
      with component_self [of u adj] have "0 < card (component adj u)"
        by (auto simp: card_gt_0_iff)
      with True uk have "deep limit adj" unfolding deep_def by auto
      with False dfs_overflow [OF True] show ?thesis by simp
    next
      case within: False
      have inv: "loop_inv adj s u [] 0 (adj_get adj u) (enter 1 u s)"
        by (rule loop_inv_enter [OF pre_call_top [OF Cons.prems(1) False]])
      have dfs_eq: "dfs limit adj 1 u s = dfs_loop limit adj 1 u 0 (adj_get adj u) (enter 1 u s)"
        using within by (simp add: dfs_def)
      have d1: "(1::nat) = Suc (length ([]::int list))" by simp
      from dfs_loop_total [OF sym lf inv refl d1, of limit]
      show ?thesis
      proof
        assume "\<exists>s' c'. dfs_loop limit adj 1 u 0 (adj_get adj u) (enter 1 u s) = Some (Inr s')
          \<and> loop_inv adj s u [] c' [] s'"
        then obtain s1 c1 where s1: "dfs limit adj 1 u s = Some (Inr s1)"
          "loop_inv adj s u [] c1 [] s1" using dfs_eq by auto
        from top_inv_after [OF sym lf s1(2)] have t1: "top_inv adj s1" .
        from loop_invD(3) [OF s1(2)] have sub: "visited s \<subseteq> visited s1" "u \<in> visited s1"
          by (rule frame_visited)+
        from Cons.IH [OF t1 us] show ?thesis
        proof
          assume "\<exists>s'. roots limit adj us s1 = Some (Inr s') \<and> top_inv adj s'
            \<and> visited s1 \<union> set us \<subseteq> visited s'"
          then obtain s' where s': "roots limit adj us s1 = Some (Inr s')"
            "top_inv adj s'" "visited s1 \<union> set us \<subseteq> visited s'" by blast
          have "roots limit adj (u # us) s = Some (Inr s')" using False s1(1) s'(1) by simp
          moreover have "visited s \<union> set (u # us) \<subseteq> visited s'" using sub s'(3) by auto
          ultimately show ?thesis using s'(2) by blast
        next
          assume "roots limit adj us s1 = Some (Inl RecursionError) \<and> deep limit adj"
          with False s1(1) show ?thesis by simp
        qed
      next
        assume "dfs_loop limit adj 1 u 0 (adj_get adj u) (enter 1 u s) = Some (Inl RecursionError)
          \<and> deep limit adj"
        with False dfs_eq show ?thesis by simp
      qed
    qed
  qed
qed

text \<open>
  On a symmetric map without self-loops the function returns the set of cut nodes,
  unless the call stack overflows.
\<close>

lemma find_articulation_points_cut:
  assumes sym: "symmetric adj" and lf: "loop_free adj"
  shows "find_articulation_points limit adj = Some (Inr {u. is_cut adj u})
     \<or> (find_articulation_points limit adj = Some (Inl RecursionError) \<and> deep limit adj)"
proof -
  have "set (map fst adj) \<subseteq> keys adj" by (simp add: keys_def)
  from roots_total [OF sym lf top_inv_init this, of limit]
  show ?thesis
  proof
    assume "\<exists>s'. roots limit adj (map fst adj) init_state = Some (Inr s') \<and> top_inv adj s'
      \<and> visited init_state \<union> set (map fst adj) \<subseteq> visited s'"
    then obtain s' where s': "run limit adj = Some (Inr s')" "top_inv adj s'"
      "keys adj \<subseteq> visited s'"
      by (auto simp: run_def keys_def)
    from s'(2) have snd: "\<And>a. a \<in> articulation s' \<Longrightarrow> is_cut adj a"
      and cpl: "\<And>y. y \<in> visited s' \<Longrightarrow> is_cut adj y \<Longrightarrow> y \<in> articulation s'"
      by (auto simp: top_inv_def art_sound_def art_complete_def)
    have "articulation s' = {u. is_cut adj u}"
    proof (intro set_eqI iffI)
      fix u assume "u \<in> articulation s'"
      then show "u \<in> {u. is_cut adj u}" using snd by simp
    next
      fix u assume "u \<in> {u. is_cut adj u}"
      then have c: "is_cut adj u" by simp
      with cut_iff_more_components_other(2) [OF sym, of u] have "u \<in> keys adj" by auto
      with s'(3) cpl c show "u \<in> articulation s'" by auto
    qed
    with s'(1) show ?thesis by (simp add: find_articulation_points_def)
  next
    assume "roots limit adj (map fst adj) init_state = Some (Inl RecursionError)
      \<and> deep limit adj"
    then show ?thesis by (simp add: find_articulation_points_def run_def)
  qed
qed

text \<open>When no component has more nodes than activations fit, the set is returned.\<close>

lemma find_articulation_points_shallow:
  assumes "symmetric adj" and "loop_free adj" and "\<not> deep limit adj"
  shows "find_articulation_points limit adj = Some (Inr {u. is_cut adj u})"
  using find_articulation_points_cut [OF assms(1,2), of limit] assms(3) by simp


section \<open>The traversal ends on every adjacency map\<close>

lemma finite_nodes: "finite (all_nodes adj)"
  by (simp add: all_nodes_def keys_def)

lemma nbrs_subset_nodes: "nbrs adj u \<subseteq> all_nodes adj"
proof (cases "map_of adj u")
  case None
  then show ?thesis by (simp add: nbrs_def adj_get_def)
next
  case (Some ns)
  then have "(u, ns) \<in> set adj" by (rule map_of_SomeD)
  then have "set ns \<subseteq> \<Union> (set ` snd ` set adj)" by force
  with Some show ?thesis by (auto simp: nbrs_def adj_get_def all_nodes_def)
qed

lemma safe_defined:
  assumes "safe s" and "w \<in> visited s"
  shows "\<exists>d. disc s w = Some d" and "\<exists>l. low s w = Some l"
proof -
  from assms have "w \<in> dom (disc s)" "w \<in> dom (low s)" by (simp_all add: safe_def)
  then show "\<exists>d. disc s w = Some d" and "\<exists>l. low s w = Some l" by (auto dest: domD)
qed

lemma safe_enter: "safe s \<Longrightarrow> safe (enter d v (s\<lparr>parent := p\<rparr>))"
  by (simp add: safe_def enter_fields)

lemma card_unseen_less:
  assumes "v \<in> all_nodes adj" and "v \<notin> S" and "insert v S \<subseteq> S'"
  shows "card (all_nodes adj - S') < card (all_nodes adj - S)"
proof -
  have "finite (all_nodes adj - S)" by (simp add: finite_nodes)
  moreover have "all_nodes adj - S' \<subset> all_nodes adj - S" using assms by auto
  ultimately show ?thesis by (rule psubset_card_mono)
qed

text \<open>
  One iteration with an unvisited neighbour, under another limit: when the call for the
  child and the rest of the loop end as before or overflow, so does the loop.
\<close>

lemma dfs_loop_child_limit:
  assumes new: "v \<notin> visited s" and ac: "after_child u v (c + 1) s1 = Inr s2"
    and child: "returns_or_overflows (dfs_loop l adj (d + 1) v 0 (adj_get adj v)
        (enter (d + 1) v (s\<lparr>parent := (parent s)(v \<mapsto> u)\<rparr>))) s1"
    and rest: "returns_or_overflows (dfs_loop l adj d u (c + 1) vs s2) s'"
  shows "returns_or_overflows (dfs_loop l adj d u c (v # vs) s) s'"
proof (cases "l < d + 1")
  case True
  from dfs_loop_raise [OF new dfs_overflow [OF True]]
  show ?thesis by (simp add: returns_or_overflows_def)
next
  case False
  then have dfs_eq: "dfs l adj (d + 1) v (s\<lparr>parent := (parent s)(v \<mapsto> u)\<rparr>)
      = dfs_loop l adj (d + 1) v 0 (adj_get adj v)
          (enter (d + 1) v (s\<lparr>parent := (parent s)(v \<mapsto> u)\<rparr>))"
    by (simp add: dfs_def)
  from child show ?thesis unfolding returns_or_overflows_def [of _ s1]
  proof
    assume "dfs_loop l adj (d + 1) v 0 (adj_get adj v)
        (enter (d + 1) v (s\<lparr>parent := (parent s)(v \<mapsto> u)\<rparr>)) = Some (Inr s1)"
    with dfs_eq have "dfs l adj (d + 1) v (s\<lparr>parent := (parent s)(v \<mapsto> u)\<rparr>) = Some (Inr s1)"
      by simp
    from dfs_loop_child [OF new this ac] rest show ?thesis by simp
  next
    assume "dfs_loop l adj (d + 1) v 0 (adj_get adj v)
        (enter (d + 1) v (s\<lparr>parent := (parent s)(v \<mapsto> u)\<rparr>)) = Some (Inl RecursionError)"
    with dfs_eq
    have "dfs l adj (d + 1) v (s\<lparr>parent := (parent s)(v \<mapsto> u)\<rparr>) = Some (Inl RecursionError)"
      by simp
    from dfs_loop_raise [OF new this] show ?thesis by (simp add: returns_or_overflows_def)
  qed
qed

text \<open>
  On every adjacency map, symmetric or not, the loop of an activation ends: it returns
  or it raises \<^verbatim>\<open>RecursionError\<close>. It raises no \<^verbatim>\<open>KeyError\<close>, and when it returns, it
  returns the same state under every other limit that does not make it overflow.
\<close>

lemma dfs_loop_returns:
  "safe s \<Longrightarrow> u \<in> visited s \<Longrightarrow> set vs \<subseteq> all_nodes adj \<Longrightarrow> card (all_nodes adj - visited s) = n
    \<Longrightarrow> (\<exists>s'. dfs_loop limit adj d u c vs s = Some (Inr s') \<and> safe s' \<and> visited s \<subseteq> visited s'
           \<and> (\<forall>l. returns_or_overflows (dfs_loop l adj d u c vs s) s'))
       \<or> dfs_loop limit adj d u c vs s = Some (Inl RecursionError)"
proof (induction n arbitrary: u c vs s d rule: less_induct)
  case (less n)
  from less.prems show ?case
  proof (induction vs arbitrary: c s)
    case Nil
    then show ?case by (simp add: dfs_loop_Nil returns_or_overflows_def)
  next
    case (Cons v vs)
    note safe = Cons.prems(1) and uv = Cons.prems(2) and card = Cons.prems(4)
    from Cons.prems(3) have vn: "v \<in> all_nodes adj" and vs: "set vs \<subseteq> all_nodes adj" by simp_all
    show ?case
    proof (cases "v \<in> visited s")
      case True
      show ?thesis
      proof (cases "parent s u = Some v")
        case par: True
        from Cons.IH [OF safe uv vs card]
        show ?thesis by (simp add: dfs_loop_skip [OF True par])
      next
        case par: False
        from safe_defined(2) [OF safe uv] obtain lu where lu: "low s u = Some lu" by blast
        from safe_defined(1) [OF safe True] obtain dv where dv: "disc s v = Some dv" by blast
        from back_edge_result [OF lu dv]
        obtain s1 where s1: "back_edge u v s = Inr s1" "visited s1 = visited s"
          "disc s1 = disc s" "low s1 = (low s)(u \<mapsto> min lu dv)" by blast
        have safe1: "safe s1" using safe uv by (auto simp: safe_def s1)
        have u1: "u \<in> visited s1" and c1: "card (all_nodes adj - visited s1) = n"
          using uv card by (simp_all add: s1)
        from Cons.IH [OF safe1 u1 vs c1] uv
        show ?thesis by (simp add: dfs_loop_back [OF True par s1(1)] s1(2))
      qed
    next
      case False
      let ?m = "s\<lparr>parent := (parent s)(v \<mapsto> u)\<rparr>"
      let ?e = "enter (d + 1) v ?m"
      show ?thesis
      proof (cases "limit < d + 1")
        case True
        from dfs_loop_raise [OF False dfs_overflow [OF True]] show ?thesis by simp
      next
        case within: False
        then have dfs_eq: "dfs limit adj (d + 1) v ?m
            = dfs_loop limit adj (d + 1) v 0 (adj_get adj v) ?e"
          by (simp add: dfs_def)
        have ve: "visited ?e = insert v (visited s)" by (simp add: enter_fields)
        have "card (all_nodes adj - visited ?e) < card (all_nodes adj - visited s)"
          by (rule card_unseen_less [OF vn False]) (simp add: enter_fields)
        then have less_e: "card (all_nodes adj - visited ?e) < n" using card by simp
        have nb: "set (adj_get adj v) \<subseteq> all_nodes adj"
          using nbrs_subset_nodes [of adj v] by (simp add: nbrs_def)
        have vin: "v \<in> visited ?e" by (simp add: enter_fields)
        from less.IH [OF less_e safe_enter [OF safe] vin nb refl, of "d + 1" 0]
        show ?thesis
        proof
          assume "\<exists>s'. dfs_loop limit adj (d + 1) v 0 (adj_get adj v) ?e = Some (Inr s')
            \<and> safe s' \<and> visited ?e \<subseteq> visited s'
            \<and> (\<forall>l. returns_or_overflows (dfs_loop l adj (d + 1) v 0 (adj_get adj v) ?e) s')"
          then obtain s1 where
            s1: "dfs_loop limit adj (d + 1) v 0 (adj_get adj v) ?e = Some (Inr s1)"
              "safe s1" "insert v (visited s) \<subseteq> visited s1"
            and l1: "\<And>l. returns_or_overflows (dfs_loop l adj (d + 1) v 0 (adj_get adj v) ?e) s1"
            using ve by auto
          from s1(3) uv have u1: "u \<in> visited s1" and v1: "v \<in> visited s1" by auto
          from safe_defined(2) [OF s1(2) u1] obtain lu where lu: "low s1 u = Some lu" by blast
          from safe_defined(2) [OF s1(2) v1] obtain lv where lv: "low s1 v = Some lv" by blast
          from safe_defined(1) [OF s1(2) u1] obtain du where du: "disc s1 u = Some du" by blast
          have ne: "u \<noteq> v" using uv False by auto
          from after_child_result [OF lu lv du ne, of "c + 1"]
          obtain s2 where s2: "after_child u v (c + 1) s1 = Inr s2" "visited s2 = visited s1"
            "disc s2 = disc s1" "low s2 = (low s1)(u \<mapsto> min lu lv)" by blast
          have safe2: "safe s2" using s1(2) u1 by (auto simp: safe_def s2)
          have "insert v (visited s) \<subseteq> visited s2" using s1(3) by (simp add: s2)
          from card_unseen_less [OF vn False this] card
          have less_2: "card (all_nodes adj - visited s2) < n" by simp
          have u2: "u \<in> visited s2" using u1 by (simp add: s2)
          have call: "dfs limit adj (d + 1) v ?m = Some (Inr s1)" using s1(1) dfs_eq by simp
          note step = dfs_loop_child [OF False call s2(1)]
          from less.IH [OF less_2 safe2 u2 vs refl, of d "c + 1"]
          show ?thesis
          proof
            assume "\<exists>s'. dfs_loop limit adj d u (c + 1) vs s2 = Some (Inr s')
              \<and> safe s' \<and> visited s2 \<subseteq> visited s'
              \<and> (\<forall>l. returns_or_overflows (dfs_loop l adj d u (c + 1) vs s2) s')"
            then obtain s' where
              s': "dfs_loop limit adj d u (c + 1) vs s2 = Some (Inr s')" "safe s'"
                "visited s2 \<subseteq> visited s'"
              and l2: "\<And>l. returns_or_overflows (dfs_loop l adj d u (c + 1) vs s2) s'"
              by auto
            have "visited s \<subseteq> visited s'" using s1(3) s'(3) by (auto simp: s2(2))
            moreover have "\<forall>l. returns_or_overflows (dfs_loop l adj d u c (v # vs) s) s'"
              using dfs_loop_child_limit [OF False s2(1) l1 l2] by simp
            ultimately show ?thesis using s'(1,2) by (simp add: step)
          next
            assume "dfs_loop limit adj d u (c + 1) vs s2 = Some (Inl RecursionError)"
            then show ?thesis by (simp add: step)
          qed
        next
          assume "dfs_loop limit adj (d + 1) v 0 (adj_get adj v) ?e = Some (Inl RecursionError)"
          with dfs_eq have "dfs limit adj (d + 1) v ?m = Some (Inl RecursionError)" by simp
          from dfs_loop_raise [OF False this] show ?thesis by simp
        qed
      qed
    qed
  qed
qed

lemma dfs_returns:
  assumes "safe s" and "u \<notin> visited s"
  shows "(\<exists>s'. dfs limit adj d u s = Some (Inr s') \<and> safe s'
           \<and> (\<forall>l. returns_or_overflows (dfs l adj d u s) s'))
       \<or> dfs limit adj d u s = Some (Inl RecursionError)"
proof (cases "limit < d")
  case True
  then show ?thesis by (simp add: dfs_overflow)
next
  case False
  have nb: "set (adj_get adj u) \<subseteq> all_nodes adj"
    using nbrs_subset_nodes [of adj u] by (simp add: nbrs_def)
  have se: "safe (enter d u s)" using assms(1) by (simp add: safe_def enter_fields)
  have uin: "u \<in> visited (enter d u s)" by (simp add: enter_fields)
  from dfs_loop_returns [OF se uin nb refl, of limit d 0]
  show ?thesis
  proof
    assume "\<exists>s'. dfs_loop limit adj d u 0 (adj_get adj u) (enter d u s) = Some (Inr s')
      \<and> safe s' \<and> visited (enter d u s) \<subseteq> visited s'
      \<and> (\<forall>l. returns_or_overflows (dfs_loop l adj d u 0 (adj_get adj u) (enter d u s)) s')"
    then obtain s' where
      s': "dfs_loop limit adj d u 0 (adj_get adj u) (enter d u s) = Some (Inr s')" "safe s'"
      and l1: "\<And>l. returns_or_overflows (dfs_loop l adj d u 0 (adj_get adj u) (enter d u s)) s'"
      by auto
    have "\<And>l. returns_or_overflows (dfs l adj d u s) s'"
    proof -
      fix l show "returns_or_overflows (dfs l adj d u s) s'"
        using l1 [of l] by (cases "l < d") (simp_all add: dfs_def returns_or_overflows_def)
    qed
    with s' False show ?thesis by (simp add: dfs_def)
  next
    assume "dfs_loop limit adj d u 0 (adj_get adj u) (enter d u s) = Some (Inl RecursionError)"
    with False show ?thesis by (simp add: dfs_def)
  qed
qed

lemma roots_returns:
  "safe s \<Longrightarrow> (\<exists>s'. roots limit adj us s = Some (Inr s') \<and> safe s'
        \<and> (\<forall>l. returns_or_overflows (roots l adj us s) s'))
     \<or> roots limit adj us s = Some (Inl RecursionError)"
proof (induction us arbitrary: s)
  case Nil
  then show ?case by (simp add: returns_or_overflows_def)
next
  case (Cons u us)
  show ?case
  proof (cases "u \<in> visited s")
    case True
    with Cons.IH [OF Cons.prems] show ?thesis by simp
  next
    case False
    from dfs_returns [OF Cons.prems False, of limit adj 1]
    show ?thesis
    proof
      assume "\<exists>s'. dfs limit adj 1 u s = Some (Inr s') \<and> safe s'
        \<and> (\<forall>l. returns_or_overflows (dfs l adj 1 u s) s')"
      then obtain s1 where s1: "dfs limit adj 1 u s = Some (Inr s1)" "safe s1"
        and l1: "\<And>l. returns_or_overflows (dfs l adj 1 u s) s1" by auto
      from Cons.IH [OF s1(2)] show ?thesis
      proof
        assume "\<exists>s'. roots limit adj us s1 = Some (Inr s') \<and> safe s'
          \<and> (\<forall>l. returns_or_overflows (roots l adj us s1) s')"
        then obtain s' where s': "roots limit adj us s1 = Some (Inr s')" "safe s'"
          and l2: "\<And>l. returns_or_overflows (roots l adj us s1) s'" by auto
        have "\<And>l. returns_or_overflows (roots l adj (u # us) s) s'"
        proof -
          fix l show "returns_or_overflows (roots l adj (u # us) s) s'"
            using l1 [of l] l2 [of l] False by (auto simp: returns_or_overflows_def)
        qed
        with s' s1(1) False show ?thesis by simp
      next
        assume "roots limit adj us s1 = Some (Inl RecursionError)"
        with s1(1) False show ?thesis by simp
      qed
    next
      assume "dfs limit adj 1 u s = Some (Inl RecursionError)"
      with False show ?thesis by simp
    qed
  qed
qed

lemma safe_init: "safe init_state"
  by (simp add: safe_def init_state_def)

text \<open>The function returns a set or raises \<^verbatim>\<open>RecursionError\<close>.\<close>

lemma find_articulation_points_returns:
  "(\<exists>A. find_articulation_points limit adj = Some (Inr A))
     \<or> find_articulation_points limit adj = Some (Inl RecursionError)"
  using roots_returns [OF safe_init, of limit adj "map fst adj"]
  by (auto simp: find_articulation_points_def run_def)

text \<open>The set that is returned does not depend on the limit.\<close>

lemma find_articulation_points_limit:
  assumes "find_articulation_points limit adj = Some (Inr A)"
    and "find_articulation_points limit' adj = Some (Inr A')"
  shows "A' = A"
proof -
  from roots_returns [OF safe_init, of limit adj "map fst adj"] assms(1)
  obtain s' where s': "run limit adj = Some (Inr s')"
    and l: "\<And>l. returns_or_overflows (run l adj) s'"
    by (auto simp: find_articulation_points_def run_def)
  from l [of limit'] assms(2) have "run limit' adj = Some (Inr s')"
    by (auto simp: find_articulation_points_def returns_or_overflows_def)
  with s' assms show ?thesis by (simp add: find_articulation_points_def)
qed

section \<open>The result does not depend on the order of iteration\<close>

lemma edges_cong: "\<forall>u. nbrs adj' u = nbrs adj u \<Longrightarrow> edges adj' = edges adj"
  by (simp add: edges_def)

lemma avoiding_cong: "\<forall>u. nbrs adj' u = nbrs adj u \<Longrightarrow> avoiding adj' X = avoiding adj X"
  by (simp add: avoiding_def)

lemma is_cut_cong:
  assumes "\<forall>u. nbrs adj' u = nbrs adj u"
  shows "is_cut adj' u = is_cut adj u"
  unfolding is_cut_def edges_cong [OF assms] avoiding_cong [OF assms] ..

lemma component_cong:
  assumes "\<forall>u. nbrs adj' u = nbrs adj u"
  shows "component adj' v = component adj v"
  unfolding component_def edges_cong [OF assms] ..

text \<open>
  Two maps with the same neighbour sets, iterated in any two orders and with any two
  limits: when both invocations return, they return the same set.
\<close>

lemma order_independent:
  assumes sym: "symmetric adj" and lf: "loop_free adj"
    and same: "\<forall>u. nbrs adj' u = nbrs adj u"
    and r: "find_articulation_points limit adj = Some (Inr A)"
    and r': "find_articulation_points limit' adj' = Some (Inr A')"
  shows "A' = A"
proof -
  from sym lf same have "symmetric adj'" "loop_free adj'"
    by (simp_all add: symmetric_def loop_free_def)
  from find_articulation_points_cut [OF this, of limit'] r'
  have "A' = {u. is_cut adj' u}" by simp
  also have "\<dots> = {u. is_cut adj u}" by (simp add: is_cut_cong [OF same])
  also from find_articulation_points_cut [OF sym lf, of limit] r
  have "\<dots> = A" by simp
  finally show ?thesis .
qed

lemma symmetric_code:
  "symmetric adj \<longleftrightarrow> (\<forall>u \<in> set (map fst adj). \<forall>v \<in> set (adj_get adj u). u \<in> set (adj_get adj v))"
proof
  assume "symmetric adj"
  then show "\<forall>u \<in> set (map fst adj). \<forall>v \<in> set (adj_get adj u). u \<in> set (adj_get adj v)"
    by (simp add: symmetric_def nbrs_def)
next
  assume r: "\<forall>u \<in> set (map fst adj). \<forall>v \<in> set (adj_get adj u). u \<in> set (adj_get adj v)"
  have "\<And>u v. v \<in> nbrs adj u \<Longrightarrow> u \<in> nbrs adj v"
  proof -
    fix u v assume v: "v \<in> nbrs adj u"
    then have "u \<in> keys adj" by (rule has_nbr_is_key)
    then have "u \<in> set (map fst adj)" by (simp add: keys_def)
    with r v show "u \<in> nbrs adj v" unfolding nbrs_def by blast
  qed
  then show "symmetric adj" unfolding symmetric_def by blast
qed

lemma loop_free_code:
  "loop_free adj \<longleftrightarrow> (\<forall>u \<in> set (map fst adj). u \<notin> set (adj_get adj u))"
proof
  assume "loop_free adj"
  then show "\<forall>u \<in> set (map fst adj). u \<notin> set (adj_get adj u)"
    by (simp add: loop_free_def nbrs_def)
next
  assume r: "\<forall>u \<in> set (map fst adj). u \<notin> set (adj_get adj u)"
  have "\<And>u. u \<notin> nbrs adj u"
  proof
    fix u assume u: "u \<in> nbrs adj u"
    then have "u \<in> keys adj" by (rule has_nbr_is_key)
    then have "u \<in> set (map fst adj)" by (simp add: keys_def)
    with r u show False unfolding nbrs_def by blast
  qed
  then show "loop_free adj" by (simp add: loop_free_def)
qed

lemma path5_symmetric: "symmetric path5"
  unfolding symmetric_code path5_def by code_simp

lemma path5_loop_free: "loop_free path5"
  unfolding loop_free_code path5_def by code_simp

lemma path5_result: "find_articulation_points script_limit path5 = Some (Inr {2, 3, 4})"
  unfolding path5_def by code_simp

lemma path5_cut: "{u. is_cut path5 u} = {2, 3, 4}"
  using find_articulation_points_cut [OF path5_symmetric path5_loop_free, of script_limit]
  by (simp add: path5_result)

text \<open>No component of the path with five nodes has more than five nodes.\<close>

lemma path5_edges:
  assumes "(a, b) \<in> edges path5"
  shows "1 \<le> a \<and> a \<le> 5 \<and> 1 \<le> b \<and> b \<le> 5"
  using assms by (auto simp: edges_def nbrs_def adj_get_def path5_def split: if_splits)

lemma path5_component: "card (component path5 w) \<le> 5"
proof (cases "1 \<le> w \<and> w \<le> 5")
  case True
  have "component path5 w \<subseteq> {1..5}"
  proof
    fix x assume "x \<in> component path5 w"
    then have "(w, x) \<in> (edges path5)\<^sup>*" by (simp add: component_def)
    then show "x \<in> {1..5}"
    proof (cases rule: rtranclE)
      case base
      with True show ?thesis by simp
    next
      case (step y)
      from path5_edges [OF step(2)] show ?thesis by simp
    qed
  qed
  from card_mono [OF _ this] show ?thesis by simp
next
  case False
  have "component path5 w \<subseteq> {w}"
  proof
    fix x assume "x \<in> component path5 w"
    then have "(w, x) \<in> (edges path5)\<^sup>*" by (simp add: component_def)
    then show "x \<in> {w}"
    proof (cases rule: converse_rtranclE)
      case base
      then show ?thesis by simp
    next
      case (step y)
      from path5_edges [OF step(1)] False show ?thesis by simp
    qed
  qed
  from card_mono [OF _ this] show ?thesis by simp
qed

lemma path5_shallow:
  assumes same: "\<forall>u. nbrs adj u = nbrs path5 u" and "5 \<le> limit"
  shows "\<not> deep limit adj"
  using path5_component assms(2) unfolding deep_def component_cong [OF same]
  by (auto simp: not_less intro: order_trans)

section \<open>The depth of the recursion on a path\<close>

lemma enter_frames: "frames (enter d u s) = max (frames s) d"
  by (simp add: enter_def)

lemma after_child_frames: "after_child u v k s = Inr s2 \<Longrightarrow> frames s2 = frames s"
  by (auto simp: after_child_def raising_def subscript_def Let_def
      split: option.splits if_splits)

lemma map_of_path_graph:
  "map_of (path_graph n) k =
     (if 1 \<le> k \<and> k \<le> n then Some (filter (\<lambda>j. 1 \<le> j \<and> j \<le> n) [k - 1, k + 1]) else None)"
  unfolding path_graph_def map_of_map_restrict by (simp add: restrict_map_def)

lemma adj_get_path_graph:
  assumes "1 \<le> k" and "k \<le> n"
  shows "adj_get (path_graph n) k =
     (if k = 1 then [] else [k - 1]) @ (if k = n then [] else [k + 1])"
  using assms by (auto simp: adj_get_def map_of_path_graph)

lemma nbrs_path_graph:
  "v \<in> nbrs (path_graph n) k \<longleftrightarrow>
     1 \<le> k \<and> k \<le> n \<and> 1 \<le> v \<and> v \<le> n \<and> (v = k - 1 \<or> v = k + 1)"
  by (auto simp: nbrs_def adj_get_def map_of_path_graph)

lemma path_graph_symmetric: "symmetric (path_graph n)"
  unfolding symmetric_def nbrs_path_graph by auto

lemma path_graph_loop_free: "loop_free (path_graph n)"
  unfolding loop_free_def nbrs_path_graph by auto

text \<open>The second node of a path with three nodes or more is a cut node.\<close>

lemma path_graph_cut:
  assumes "3 \<le> n"
  shows "is_cut (path_graph n) 2"
proof -
  let ?G = "path_graph n"
  have e1: "(2, 1) \<in> (edges ?G)\<^sup>*" and e3: "(2, 3) \<in> (edges ?G)\<^sup>*"
    using assms by (auto simp: edges_def nbrs_path_graph)
  have "(1, 3) \<notin> (avoiding ?G {2})\<^sup>*"
  proof
    assume "(1, 3) \<in> (avoiding ?G {2})\<^sup>*"
    then show False
    proof (cases rule: converse_rtranclE)
      case base
      then show ?thesis by simp
    next
      case (step y)
      then show ?thesis by (auto simp: avoiding_def nbrs_path_graph)
    qed
  qed
  with e1 e3 show ?thesis unfolding is_cut_def by (intro exI [of _ 1] exI [of _ 3]) simp
qed

lemma roots_all_visited: "set us \<subseteq> visited s \<Longrightarrow> roots limit adj us s = Some (Inr s)"
  by (induction us) auto

text \<open>
  The activation for the node \<open>k\<close> of the path, with the nodes before \<open>k\<close> visited: it
  calls \<^verbatim>\<open>dfs\<close> for \<open>k + 1\<close>, and so on to the node \<open>n\<close>. When the remaining nodes fit on
  the call stack, it returns after all of them have been on the stack together.
\<close>

lemma path_descend:
  assumes "nat (n - k) = m" and "1 \<le> k" and "k \<le> n" and "safe s" and "visited s = {1..<k}"
    and "k = 1 \<or> parent s k = Some (k - 1)" and "d + m \<le> limit"
  shows "\<exists>s'. dfs limit (path_graph n) d k s = Some (Inr s') \<and> safe s' \<and> visited s' = {1..n}
     \<and> frames s' = max (frames s) (d + nat (n - k))"
  using assms
proof (induction m arbitrary: k d s)
  case 0
  then have kn: "k = n" by simp
  from "0.prems"(7) have dl: "d \<le> limit" by simp
  let ?e = "enter d k s"
  have safe_e: "safe ?e" using "0.prems"(4) by (simp add: safe_def enter_fields)
  have vis_e: "visited ?e = {1..n}" using "0.prems"(2,5) kn by (auto simp: enter_fields)
  have fr_e: "frames ?e = max (frames s) (d + nat (n - k))" using kn by (simp add: enter_frames)
  have "dfs_loop limit (path_graph n) d k 0 (adj_get (path_graph n) k) ?e = Some (Inr ?e)"
  proof (cases "k = 1")
    case True
    with kn show ?thesis by (simp add: adj_get_path_graph dfs_loop_Nil)
  next
    case False
    with "0.prems"(6) have par: "parent ?e k = Some (k - 1)" by (simp add: enter_fields)
    have vis: "k - 1 \<in> visited ?e" using False "0.prems"(2) vis_e kn by auto
    have "adj_get (path_graph n) k = [k - 1]"
      using False kn "0.prems"(2) by (simp add: adj_get_path_graph)
    then show ?thesis by (simp add: dfs_loop_skip [OF vis par] dfs_loop_Nil)
  qed
  with safe_e vis_e fr_e show ?case by (simp add: dfs_within [OF dl])
next
  case (Suc m)
  then have kn: "k < n" by simp
  from Suc.prems(7) have dl: "d \<le> limit" and dl1: "d + 1 + m \<le> limit" by simp_all
  let ?G = "path_graph n"
  let ?e = "enter d k s"
  have safe_e: "safe ?e" using Suc.prems(4) by (simp add: safe_def enter_fields)
  have vis_e: "visited ?e = {1..<k + 1}" using Suc.prems(2,5) by (auto simp: enter_fields)
  have new: "k + 1 \<notin> visited ?e" by (simp add: vis_e)
  let ?m = "?e\<lparr>parent := (parent ?e)(k + 1 \<mapsto> k)\<rparr>"
  have safe_m: "safe ?m" using safe_e by (simp add: safe_def)
  have "nat (n - (k + 1)) = m" using Suc.prems(1) by simp
  from Suc.IH [OF this _ _ safe_m _ _ dl1] kn Suc.prems(2) vis_e
  obtain s1 where s1: "dfs limit ?G (d + 1) (k + 1) ?m = Some (Inr s1)" "safe s1"
    "visited s1 = {1..n}" "frames s1 = max (frames ?m) (d + 1 + nat (n - (k + 1)))"
    by auto
  have fr1: "frames s1 = max (frames s) (d + nat (n - k))"
    using s1(4) kn by (simp add: enter_frames nat_diff_distrib)
  have k1: "k \<in> visited s1" and k2: "k + 1 \<in> visited s1"
    using Suc.prems(2) kn by (simp_all add: s1(3))
  from safe_defined(2) [OF s1(2) k1] obtain lu where lu: "low s1 k = Some lu" by blast
  from safe_defined(2) [OF s1(2) k2] obtain lv where lv: "low s1 (k + 1) = Some lv" by blast
  from safe_defined(1) [OF s1(2) k1] obtain du where du: "disc s1 k = Some du" by blast
  from after_child_result [OF lu lv du, of "0 + 1"]
  obtain s2 where s2: "after_child k (k + 1) (0 + 1) s1 = Inr s2" "visited s2 = visited s1"
    "disc s2 = disc s1" "low s2 = (low s1)(k \<mapsto> min lu lv)" by auto
  have safe2: "safe s2" using s1(2) k1 by (auto simp: safe_def s2)
  have fr2: "frames s2 = max (frames s) (d + nat (n - k))"
    using after_child_frames [OF s2(1)] fr1 by simp
  have child: "dfs_loop limit ?G d k 0 [k + 1] ?e = Some (Inr s2)"
    by (simp add: dfs_loop_child [OF new s1(1) s2(1)] dfs_loop_Nil)
  have "dfs_loop limit ?G d k 0 (adj_get ?G k) ?e = Some (Inr s2)"
  proof (cases "k = 1")
    case True
    with kn child show ?thesis by (simp add: adj_get_path_graph)
  next
    case False
    with Suc.prems(6) have par: "parent ?e k = Some (k - 1)" by (simp add: enter_fields)
    have vis: "k - 1 \<in> visited ?e" using False Suc.prems(2) by (simp add: vis_e)
    have "adj_get ?G k = [k - 1, k + 1]"
      using False kn Suc.prems(2) by (simp add: adj_get_path_graph)
    with child show ?thesis by (simp add: dfs_loop_skip [OF vis par])
  qed
  with safe2 s2(2) s1(3) fr2 show ?case by (simp add: dfs_within [OF dl])
qed

text \<open>When the remaining nodes do not fit on the call stack, it raises \<^verbatim>\<open>RecursionError\<close>.\<close>

lemma path_overflow:
  assumes "nat (n - k) = m" and "1 \<le> k" and "k \<le> n" and "visited s = {1..<k}"
    and "k = 1 \<or> parent s k = Some (k - 1)" and "limit < d + m"
  shows "dfs limit (path_graph n) d k s = Some (Inl RecursionError)"
  using assms
proof (induction m arbitrary: k d s)
  case 0
  then show ?case by (simp add: dfs_overflow)
next
  case (Suc m)
  then have kn: "k < n" by simp
  let ?G = "path_graph n"
  show ?case
  proof (cases "limit < d")
    case True
    then show ?thesis by (rule dfs_overflow)
  next
    case False
    then have dl: "d \<le> limit" by simp
    from Suc.prems(6) have dl1: "limit < d + 1 + m" by simp
    let ?e = "enter d k s"
    have vis_e: "visited ?e = {1..<k + 1}" using Suc.prems(2,4) by (auto simp: enter_fields)
    have new: "k + 1 \<notin> visited ?e" by (simp add: vis_e)
    let ?m = "?e\<lparr>parent := (parent ?e)(k + 1 \<mapsto> k)\<rparr>"
    have "nat (n - (k + 1)) = m" using Suc.prems(1) by simp
    from Suc.IH [OF this _ _ _ _ dl1, of ?m] kn Suc.prems(2) vis_e
    have call: "dfs limit ?G (d + 1) (k + 1) ?m = Some (Inl RecursionError)" by auto
    have child: "dfs_loop limit ?G d k 0 [k + 1] ?e = Some (Inl RecursionError)"
      by (rule dfs_loop_raise [OF new call])
    have "dfs_loop limit ?G d k 0 (adj_get ?G k) ?e = Some (Inl RecursionError)"
    proof (cases "k = 1")
      case True
      with kn child show ?thesis by (simp add: adj_get_path_graph)
    next
      case False
      with Suc.prems(5) have par: "parent ?e k = Some (k - 1)" by (simp add: enter_fields)
      have vis: "k - 1 \<in> visited ?e" using False Suc.prems(2) by (simp add: vis_e)
      have "adj_get ?G k = [k - 1, k + 1]"
        using False kn Suc.prems(2) by (simp add: adj_get_path_graph)
      with child show ?thesis by (simp add: dfs_loop_skip [OF vis par])
    qed
    then show ?thesis by (simp add: dfs_within [OF dl])
  qed
qed

lemma keys_path_graph: "1 \<le> n \<Longrightarrow> map fst (path_graph n) = 1 # [2..n]"
  by (simp add: path_graph_def comp_def upto_rec1 [of 1 n])

lemma run_path_graph:
  assumes "1 \<le> n" and "nat n \<le> limit"
  shows "\<exists>s'. run limit (path_graph n) = Some (Inr s') \<and> frames s' = nat n"
proof -
  have l: "1 + nat (n - 1) \<le> limit" using assms by simp
  from path_descend [where d = 1 and k = 1 and s = init_state, OF refl _ assms(1) safe_init _ _ l]
  obtain s' where s': "dfs limit (path_graph n) 1 1 init_state = Some (Inr s')"
    "visited s' = {1..n}" "frames s' = max (frames init_state) (1 + nat (n - 1))"
    by (auto simp: init_state_def)
  have "set [2..n] \<subseteq> visited s'" by (auto simp: s'(2))
  from roots_all_visited [OF this] s'(1)
  have "run limit (path_graph n) = Some (Inr s')"
    by (simp add: run_def keys_path_graph [OF assms(1)] init_state_def)
  moreover have "frames s' = nat n" using s'(3) assms by (simp add: init_state_def)
  ultimately show ?thesis by simp
qed

lemma run_path_graph_overflow:
  assumes "1 \<le> n" and "limit < nat n"
  shows "run limit (path_graph n) = Some (Inl RecursionError)"
proof -
  have l: "limit < 1 + nat (n - 1)" using assms by simp
  from path_overflow [where d = 1 and k = 1 and s = init_state, OF refl _ assms(1) _ _ l]
  have "dfs limit (path_graph n) 1 1 init_state = Some (Inl RecursionError)"
    by (simp add: init_state_def)
  then show ?thesis by (simp add: run_def keys_path_graph [OF assms(1)] init_state_def)
qed

lemma max_frames_path_graph:
  assumes "1 \<le> n"
  shows "max_frames limit (path_graph n)
     = (if nat n \<le> limit then Some (Inr (nat n)) else Some (Inl RecursionError))"
proof (cases "nat n \<le> limit")
  case True
  with run_path_graph [OF assms True] show ?thesis by (auto simp: max_frames_def)
next
  case False
  then have "limit < nat n" by simp
  from run_path_graph_overflow [OF assms this] False show ?thesis by (simp add: max_frames_def)
qed

lemma find_path_graph_overflow:
  assumes "1 \<le> n" and "limit < nat n"
  shows "find_articulation_points limit (path_graph n) = Some (Inl RecursionError)"
  using run_path_graph_overflow [OF assms] by (simp add: find_articulation_points_def)

lemma path_graph_5: "path_graph 5 = path5"
  unfolding path_graph_def path5_def by code_simp

lemma path5_rev_same: "\<forall>u. nbrs path5_rev u = nbrs path5 u"
  by (auto simp: nbrs_def adj_get_def path5_def path5_rev_def)

lemma path5_rev_result: "find_articulation_points 5 path5_rev = Some (Inr {2, 3, 4})"
  unfolding path5_rev_def by code_simp

lemma script_limit_value: "script_limit = 997"
  by (simp add: script_limit_def recursion_limit_def)

section \<open>Theorems about \<^verbatim>\<open>find_articulation_points\<close>\<close>

text \<open>
  Claim C6. On every adjacency map that represents the path graph with the edges 1-2,
  2-3, 3-4 and 4-5, whatever the order of its keys and of its neighbour sets,
  \<^verbatim>\<open>find_articulation_points\<close> returns the set \<open>{2, 3, 4}\<close>: so it does when the file is
  run as a script, and whenever five activations of \<^verbatim>\<open>dfs\<close> fit on the call stack.
\<close>

theorem path5_articulation_points:
  assumes "\<forall>u. nbrs adj u = nbrs path5 u"
  shows "find_articulation_points script_limit adj = Some (Inr {2, 3, 4})
     \<and> (5 \<le> limit \<longrightarrow> find_articulation_points limit adj = Some (Inr {2, 3, 4}))"
proof -
  from assms path5_symmetric path5_loop_free have sym: "symmetric adj" and lf: "loop_free adj"
    by (simp_all add: symmetric_def loop_free_def)
  have cut: "{u. is_cut adj u} = {2, 3, 4}"
    using path5_cut by (simp add: is_cut_cong [OF assms])
  have "\<And>l. 5 \<le> l \<Longrightarrow> find_articulation_points l adj = Some (Inr {2, 3, 4})"
    using find_articulation_points_shallow [OF sym lf path5_shallow [OF assms]] cut by simp
  then show ?thesis by (simp add: script_limit_value)
qed

theorem path5_articulation_points_witness:
  "(\<forall>u. nbrs path5_rev u = nbrs path5 u)
     \<and> find_articulation_points script_limit path5_rev = Some (Inr {2, 3, 4})
     \<and> find_articulation_points 5 path5_rev = Some (Inr {2, 3, 4})"
  using path5_rev_same path5_articulation_points [OF path5_rev_same, of 5] by simp

text \<open>
  Claim C1, as the script has it. On a symmetric adjacency map without self-loops
  \<^verbatim>\<open>find_articulation_points\<close> ends in one of two ways. Either it returns a set, and a
  node \<open>u\<close> is in that set exactly when the graph without \<open>u\<close> has more connected
  components than the graph. Or it raises \<^verbatim>\<open>RecursionError\<close>, and then some connected
  component has more nodes than activations of \<^verbatim>\<open>dfs\<close> fit on the call stack.
\<close>

theorem find_articulation_points_correct:
  assumes "symmetric adj" and "loop_free adj"
  shows "(\<exists>A. find_articulation_points limit adj = Some (Inr A)
        \<and> (\<forall>u. u \<in> A \<longleftrightarrow> num_components adj < num_components (remove_node adj u)))
     \<or> (find_articulation_points limit adj = Some (Inl RecursionError)
        \<and> (\<exists>w \<in> keys adj. limit < card (component adj w)))"
proof -
  from find_articulation_points_cut [OF assms, of limit] show ?thesis
  proof
    assume r: "find_articulation_points limit adj = Some (Inr {u. is_cut adj u})"
    have "\<forall>u. u \<in> {u. is_cut adj u}
        \<longleftrightarrow> num_components adj < num_components (remove_node adj u)"
      by (simp add: cut_iff_more_components [OF assms(1)])
    with r show ?thesis by blast
  next
    assume "find_articulation_points limit adj = Some (Inl RecursionError) \<and> deep limit adj"
    then show ?thesis by (simp add: deep_def)
  qed
qed

theorem find_articulation_points_correct_witness:
  "symmetric path5 \<and> loop_free path5
     \<and> find_articulation_points script_limit path5 = Some (Inr {2, 3, 4})
     \<and> num_components path5 < num_components (remove_node path5 3)
     \<and> \<not> num_components path5 < num_components (remove_node path5 1)"
proof -
  from find_articulation_points_correct [OF path5_symmetric path5_loop_free, of script_limit]
    path5_result
  obtain A where A: "find_articulation_points script_limit path5 = Some (Inr A)"
    "\<And>u. u \<in> A \<longleftrightarrow> num_components path5 < num_components (remove_node path5 u)"
    by auto
  from A(1) path5_result have "A = {2, 3, 4}" by simp
  with A(2) [of 3] A(2) [of 1]
  have "num_components path5 < num_components (remove_node path5 3)"
    "\<not> num_components path5 < num_components (remove_node path5 1)" by simp_all
  with path5_symmetric path5_loop_free path5_result show ?thesis by simp
qed

text \<open>
  The claim C1 as stated fails: the path graph with 998 nodes is symmetric and has no
  self-loop, and the graph without its node 2 has more components, but the script
  returns no set for it: the traversal needs 998 activations of \<^verbatim>\<open>dfs\<close> on the call
  stack and raises \<^verbatim>\<open>RecursionError\<close>.
\<close>

theorem find_articulation_points_counterexample:
  "symmetric (path_graph 998) \<and> loop_free (path_graph 998)
     \<and> num_components (path_graph 998) < num_components (remove_node (path_graph 998) 2)
     \<and> find_articulation_points script_limit (path_graph 998) = Some (Inl RecursionError)"
proof -
  have "is_cut (path_graph 998) 2" by (rule path_graph_cut) simp
  then have "num_components (path_graph 998) < num_components (remove_node (path_graph 998) 2)"
    by (simp add: cut_iff_more_components [OF path_graph_symmetric])
  moreover have "find_articulation_points script_limit (path_graph 998)
      = Some (Inl RecursionError)"
    by (rule find_path_graph_overflow) (simp_all add: script_limit_value)
  ultimately show ?thesis using path_graph_symmetric path_graph_loop_free by simp
qed

text \<open>
  Claim C7. An invocation of \<^verbatim>\<open>find_articulation_points\<close> creates the variables of the
  traversal anew and reads nothing but its argument, so its outcome is a function of the
  adjacency map, of the order in which the keys and the neighbour sets are iterated,
  and of the room on the call stack. On every adjacency map the invocation ends: it
  returns a set or it raises \<^verbatim>\<open>RecursionError\<close>. Two invocations on the same map that
  return have returned the same set, whatever room on the call stack each of them had.
  For a symmetric map without self-loops the set does not depend on the order of
  iteration either: two invocations on maps with the same neighbour sets that return
  have returned the same set.
\<close>

theorem find_articulation_points_deterministic:
  "((\<exists>A. find_articulation_points limit adj = Some (Inr A))
       \<or> find_articulation_points limit adj = Some (Inl RecursionError))
     \<and> (find_articulation_points limit adj = Some (Inr A)
          \<and> find_articulation_points limit' adj = Some (Inr A') \<longrightarrow> A' = A)
     \<and> (symmetric adj \<and> loop_free adj \<and> (\<forall>u. nbrs adj' u = nbrs adj u)
          \<and> find_articulation_points limit adj = Some (Inr A)
          \<and> find_articulation_points limit' adj' = Some (Inr A') \<longrightarrow> A' = A)"
  using find_articulation_points_returns [of limit adj]
    find_articulation_points_limit [of limit adj A limit' A']
    order_independent [of adj adj' limit A limit' A']
  by blast

theorem find_articulation_points_deterministic_witness:
  "symmetric path5 \<and> loop_free path5 \<and> (\<forall>u. nbrs path5_rev u = nbrs path5 u)
     \<and> find_articulation_points script_limit path5 = Some (Inr {2, 3, 4})
     \<and> (\<exists>A'. find_articulation_points 5 path5_rev = Some (Inr A') \<and> A' = {2, 3, 4})"
proof -
  from path5_rev_result obtain A' where
    A': "find_articulation_points 5 path5_rev = Some (Inr A')" by simp
  from find_articulation_points_deterministic
    [of script_limit path5 "{2, 3, 4}" 5 A' path5_rev]
    path5_symmetric path5_loop_free path5_rev_same path5_result A'
  have "A' = {2, 3, 4}" by blast
  with A' path5_symmetric path5_loop_free path5_rev_same path5_result
  show ?thesis by blast
qed

text \<open>
  Claim C9, as the script has it. The traversal is recursive: \<^verbatim>\<open>dfs\<close> calls itself for
  every unvisited neighbour, so the activations on the call stack are the nodes of the
  current path of the depth-first tree. On the path graph with the nodes 1 to \<open>n\<close> the
  traversal puts \<open>n\<close> activations of \<^verbatim>\<open>dfs\<close> on the call stack at once: it returns when
  that many fit, and it raises \<^verbatim>\<open>RecursionError\<close> when they do not. The depth is not
  bounded independently of the longest path of the tree.
\<close>

theorem recursion_depth_path_graph:
  assumes "1 \<le> n"
  shows "max_frames limit (path_graph n)
     = (if nat n \<le> limit then Some (Inr (nat n)) else Some (Inl RecursionError))"
  using assms by (rule max_frames_path_graph)

theorem recursion_depth_path_graph_witness:
  "(1::int) \<le> 7 \<and> max_frames script_limit (path_graph 7) = Some (Inr 7)
     \<and> max_frames 5 (path_graph 7) = Some (Inl RecursionError)"
proof -
  have h: "(1::int) \<le> 7" by simp
  from recursion_depth_path_graph [OF h, of script_limit] recursion_depth_path_graph [OF h, of 5]
  show ?thesis by (simp add: script_limit_value)
qed

text \<open>
  The claim C9 as stated fails: with an explicit stack the number of activations of
  \<^verbatim>\<open>dfs\<close> on the call stack would not grow with the graph, but it is 5 on the path
  graph with five nodes and 500 on the path graph with 500 nodes, and on the path graph
  with 998 nodes the call stack of the script overflows.
\<close>

theorem recursion_depth_counterexample:
  "max_frames script_limit (path_graph 5) = Some (Inr 5)
     \<and> max_frames script_limit (path_graph 500) = Some (Inr 500)
     \<and> max_frames script_limit (path_graph 998) = Some (Inl RecursionError)"
  by (simp add: max_frames_path_graph script_limit_value)

end
